theory Spec2Isabelle
  imports Complex_Main "HOL-Library.Word" "HOL-Library.Log_Nat" "HOL-Library.Product_Lexorder"
begin

section \<open>Python values used by the icon generator\<close>

text \<open>
  The program is \<^verbatim>\<open>Assets/generate_icon.py\<close>. Its integers are Python integers
  (\<^typ>\<open>int\<close>, or \<^typ>\<open>nat\<close> for loop counters and pixel coordinates, which start at 0 and
  only count upwards). The two places where it divides, \<^verbatim>\<open>(x + y) / (width + height)\<close> and
  \<^verbatim>\<open>50 / i\<close>, use Python's true division, whose result is a double, and
  \<^verbatim>\<open>int(...)\<close> of a double truncates towards zero.

  The embedding of the program computes these quotients exactly, as rationals. Beside it
  stands the double-precision computation itself (\<open>py_truediv\<close>, \<open>py_float_mul\<close>, with the
  rounding of IEEE 754 binary64 written out), and the section on double-precision
  arithmetic proves that the two give the same integers: for the gradient mask whenever
  \<open>width + height \<le> 2 ^ 32\<close> (the imaging library keeps the two dimensions of an image in
  32-bit integers), and for the glow alpha at each of the five layers.
\<close>

definition py_int :: "rat \<Rightarrow> int" where
  \<comment> \<open>\<^verbatim>\<open>int(r)\<close>: truncation towards zero\<close>
  "py_int r = (if 0 \<le> r then \<lfloor>r\<rfloor> else \<lceil>r\<rceil>)"

subsection \<open>Doubles\<close>

text \<open>
  A double is a rational \<open>c * 2 ^ (e - 52)\<close> with a 53-bit significand \<open>c\<close>. \<open>double_round\<close>
  rounds a rational to the nearest double, ties to the even significand: \<open>expo\<close> is the
  binary exponent of a positive rational (\<open>2 ^ e \<le> x < 2 ^ (e + 1)\<close>), \<open>rne\<close> rounds to
  the nearest integer, ties to even. Overflow and subnormal results are left out: the
  quotients of the program lie between \<open>2 ^ - 32\<close> and 255. The divisor of a true division
  is never 0 where the program divides (the loop bodies run for \<open>x < width\<close> and for
  \<open>i \<ge> 1\<close> only).
\<close>

definition expo :: "rat \<Rightarrow> int" where
  "expo x = (case quotient_of x of (a, b) \<Rightarrow>
      let d = bitlen a - bitlen b in if 2 powi d \<le> x then d else d - 1)"

definition rne :: "rat \<Rightarrow> int" where
  "rne t = (let f = \<lfloor>t\<rfloor>; d = t - of_int f in
      if d < 1 / 2 then f else if 1 / 2 < d then f + 1 else if even f then f else f + 1)"

definition double_round :: "rat \<Rightarrow> rat" where
  "double_round x = (if x = 0 then 0 else
      let u = 2 powi (expo \<bar>x\<bar> - 52) in sgn x * of_int (rne (\<bar>x\<bar> / u)) * u)"

text \<open>\<^verbatim>\<open>a / b\<close> on integers, and \<^verbatim>\<open>x * y\<close> on doubles: the exact result, rounded once.\<close>

definition py_truediv :: "int \<Rightarrow> int \<Rightarrow> rat" where
  "py_truediv a b = double_round (of_int a / of_int b)"

definition py_float_mul :: "rat \<Rightarrow> rat \<Rightarrow> rat" where
  "py_float_mul x y = double_round (x * y)"

text \<open>\<^verbatim>\<open>range(n, 0, -1)\<close>: the counters \<open>n, n - 1, ..., 1\<close>.\<close>

fun range_down :: "nat \<Rightarrow> nat list" where
  "range_down 0 = []"
| "range_down (Suc n) = Suc n # range_down n"

section \<open>Images\<close>

text \<open>
  An image buffer has a width, a height and its pixels in row-major order, the order in which
  \<^verbatim>\<open>putdata\<close> takes them. A channel is an unsigned byte. Mode \<^verbatim>\<open>L\<close> has one channel per
  pixel, mode \<^verbatim>\<open>RGBA\<close> four.
\<close>

type_synonym u8 = "8 word"
type_synonym rgba = "u8 \<times> u8 \<times> u8 \<times> u8"

record 'p image =
  im_width :: nat
  im_height :: nat
  im_data :: "'p list"

datatype error =
  ValueError | FileExistsError | FileNotFoundError | NotADirectoryError | IsADirectoryError

text \<open>
  A colour as the program writes it for an \<^verbatim>\<open>RGBA\<close> image: a 3-tuple or a 4-tuple of
  integers. (For mode \<^verbatim>\<open>L\<close> it writes a single integer.)
\<close>

datatype color = RGB int int int | RGBA int int int int

definition clip8 :: "int \<Rightarrow> u8" where
  "clip8 v = (if v < 0 then 0 else if 255 < v then 255 else word_of_int v)"

text \<open>On an \<^verbatim>\<open>RGBA\<close> image a 3-tuple is opaque: its alpha is 255.\<close>

fun ink_RGBA :: "color \<Rightarrow> rgba" where
  "ink_RGBA (RGB r g b) = (clip8 r, clip8 g, clip8 b, 255)"
| "ink_RGBA (RGBA r g b a) = (clip8 r, clip8 g, clip8 b, clip8 a)"

text \<open>
  \<^verbatim>\<open>color + (alpha,)\<close>: a 3-tuple extended by an alpha component (the program extends
  3-tuples only).
\<close>

fun with_alpha :: "color \<Rightarrow> int \<Rightarrow> color" where
  "with_alpha (RGB r g b) a = RGBA r g b a"
| "with_alpha c a = c"

definition image_new :: "nat \<Rightarrow> nat \<Rightarrow> 'p \<Rightarrow> 'p image" where
  \<comment> \<open>\<^verbatim>\<open>Image.new(mode, (w, h), color)\<close>\<close>
  "image_new w h c = \<lparr>im_width = w, im_height = h, im_data = replicate (w * h) c\<rparr>"

definition well_formed :: "'p image \<Rightarrow> bool" where
  \<comment> \<open>the buffer holds one entry per pixel\<close>
  "well_formed im = (length (im_data im) = im_width im * im_height im)"

definition getpixel :: "'p image \<Rightarrow> nat \<Rightarrow> nat \<Rightarrow> 'p" where
  "getpixel im x y = im_data im ! (y * im_width im + x)"

definition putdata :: "u8 image \<Rightarrow> int list \<Rightarrow> u8 image" where
  \<comment> \<open>\<^verbatim>\<open>mask.putdata(values)\<close>: the values fill the buffer from the first pixel on\<close>
  "putdata im vs = im\<lparr>im_data := map clip8 vs @ drop (length vs) (im_data im)\<rparr>"

subsection \<open>Masked paste\<close>

text \<open>
  \<^verbatim>\<open>dst.paste(src, (0, 0), mask)\<close> mixes \<open>src\<close> into \<open>dst\<close>, pixel by pixel and channel by
  channel, with the mask value as the weight of \<open>src\<close>: where the mask is 0 the pixel of
  \<open>dst\<close> stays, where it is 255 the pixel of \<open>src\<close> is copied, and a value \<open>m\<close> between
  gives the rounded weighted mean \<open>(d * (255 - m) + s * m) / 255\<close>, which the imaging library
  computes with shifts (\<open>div255\<close>). A mask whose size is not the size of \<open>src\<close> is refused
  with a \<^verbatim>\<open>ValueError\<close>. The region pasted is the part of \<open>src\<close> that lies inside \<open>dst\<close>.
\<close>

definition div255 :: "nat \<Rightarrow> nat" where
  "div255 a = (let tmp = a + 128 in (tmp div 256 + tmp) div 256)"

definition blend :: "u8 \<Rightarrow> u8 \<Rightarrow> u8 \<Rightarrow> u8" where
  "blend m d s = of_nat (div255 (unat d * (255 - unat m) + unat s * unat m))"

fun blend_rgba :: "u8 \<Rightarrow> rgba \<Rightarrow> rgba \<Rightarrow> rgba" where
  "blend_rgba m (dr, dg, db, da) (sr, sg, sb, sa) =
     (blend m dr sr, blend m dg sg, blend m db sb, blend m da sa)"

definition paste :: "rgba image \<Rightarrow> rgba image \<Rightarrow> u8 image \<Rightarrow> error + rgba image" where
  "paste dst src msk =
     (if im_width msk \<noteq> im_width src \<or> im_height msk \<noteq> im_height src then Inl ValueError
      else Inr (dst\<lparr>im_data :=
        map (\<lambda>i. let x = i mod im_width dst; y = i div im_width dst in
                  if x < im_width src \<and> y < im_height src
                  then blend_rgba (getpixel msk x y) (im_data dst ! i) (getpixel src x y)
                  else im_data dst ! i)
            [0..<length (im_data dst)]\<rparr>))"

section \<open>The gradient generator\<close>

text \<open>
  \<^verbatim>\<open>create_gradient(width, height, start_color, end_color)\<close>. The two nested loops append
  one mask value per pixel, row after row; \<open>mask_row\<close> is the inner loop over \<open>x\<close>,
  \<open>mask_data\<close> the outer loop over \<open>y\<close>. The loop body runs only for \<open>x < width\<close>, so
  the divisor \<open>width + height\<close> is positive whenever the quotient is taken.
\<close>

definition blend_factor :: "nat \<Rightarrow> nat \<Rightarrow> nat \<Rightarrow> nat \<Rightarrow> rat" where
  \<comment> \<open>\<^verbatim>\<open>p = (x + y) / (width + height)\<close>\<close>
  "blend_factor width height x y = of_nat (x + y) / of_nat (width + height)"

definition mask_value :: "nat \<Rightarrow> nat \<Rightarrow> nat \<Rightarrow> nat \<Rightarrow> int" where
  \<comment> \<open>\<^verbatim>\<open>int(255 * p)\<close>\<close>
  "mask_value width height x y = py_int (255 * blend_factor width height x y)"

definition mask_value_double :: "nat \<Rightarrow> nat \<Rightarrow> nat \<Rightarrow> nat \<Rightarrow> int" where
  \<comment> \<open>the same two lines evaluated in double precision\<close>
  "mask_value_double width height x y =
     py_int (py_float_mul 255 (py_truediv (int (x + y)) (int (width + height))))"

definition mask_row :: "nat \<Rightarrow> nat \<Rightarrow> int list \<Rightarrow> nat \<Rightarrow> int list" where
  "mask_row width height acc y =
     foldl (\<lambda>acc x. acc @ [mask_value width height x y]) acc [0..<width]"

definition mask_data :: "nat \<Rightarrow> nat \<Rightarrow> int list" where
  "mask_data width height = foldl (mask_row width height) [] [0..<height]"

definition gradient_mask :: "nat \<Rightarrow> nat \<Rightarrow> u8 image" where
  "gradient_mask width height = putdata (image_new width height 0) (mask_data width height)"

definition create_gradient :: "nat \<Rightarrow> nat \<Rightarrow> color \<Rightarrow> color \<Rightarrow> error + rgba image" where
  "create_gradient width height start_color end_color =
     (let base = image_new width height (ink_RGBA start_color);
          top = image_new width height (ink_RGBA end_color);
          msk = gradient_mask width height
      in paste base top msk)"

section \<open>Drawing\<close>

text \<open>
  The drawing calls of the program, with their geometry as the program passes it:
  \<^verbatim>\<open>rounded_rectangle([(x0, y0), (x1, y1)], radius=r, fill=...)\<close>,
  \<^verbatim>\<open>line([p1, p2, p3], fill=..., width=w, joint='curve')\<close> and
  \<^verbatim>\<open>rectangle([x0, y0, x1, y1], fill=...)\<close>.
\<close>

type_synonym point = "int \<times> int"

datatype shape =
    RoundedRectangle point point int
  | Line "point list" int string
  | Rectangle "int list"

text \<open>
  Which pixels a shape covers is decided by the rasteriser of the imaging library, a
  parameter of the model. A drawing call writes its ink to the pixels the shape covers and
  leaves every other pixel as it was; it never changes the size of the image.
\<close>

definition draw :: "(shape \<Rightarrow> nat \<Rightarrow> nat \<Rightarrow> bool) \<Rightarrow> shape \<Rightarrow> 'p \<Rightarrow> 'p image \<Rightarrow> 'p image" where
  "draw cov sh ink im =
     im\<lparr>im_data :=
       map (\<lambda>i. if cov sh (i mod im_width im) (i div im_width im) then ink else im_data im ! i)
           [0..<length (im_data im)]\<rparr>"

text \<open>
  What the program takes from its platform: the rasteriser, the Lanczos resampling kernel
  behind \<^verbatim>\<open>Image.resize(size, Image.Resampling.LANCZOS)\<close>, the PNG encoder behind
  \<^verbatim>\<open>save(..., format='PNG')\<close> (the icon writer encodes each of its frames with it too), the
  Lanczos thumbnail the icon writer makes, from the images it was given, for a size it was
  given no image of, and the separator of path names.
\<close>

record platform =
  covers :: "shape \<Rightarrow> nat \<Rightarrow> nat \<Rightarrow> bool"
  resample_lanczos :: "rgba image \<Rightarrow> nat \<times> nat \<Rightarrow> rgba list"
  thumbnail_lanczos :: "rgba image list \<Rightarrow> nat \<times> nat \<Rightarrow> rgba image"
  encode_png :: "rgba image \<Rightarrow> u8 list"
  path_sep :: char

text \<open>
  \<^verbatim>\<open>Image.resize\<close> returns an image of the requested size. Asked for the size the image
  already has, it returns a copy of the image and resamples nothing; otherwise the pixels are
  those of the resampling kernel.
\<close>

definition resize :: "platform \<Rightarrow> rgba image \<Rightarrow> nat \<times> nat \<Rightarrow> rgba image" where
  "resize lib im s =
     (if (im_width im, im_height im) = s then im
      else \<lparr>im_width = fst s, im_height = snd s, im_data = resample_lanczos lib im s\<rparr>)"

text \<open>Sequencing of steps that can raise: the first error ends the run.\<close>

fun and_then :: "error + 'a \<Rightarrow> ('a \<Rightarrow> error + 'b) \<Rightarrow> error + 'b" where
  "and_then (Inl e) f = Inl e"
| "and_then (Inr v) f = f v"

section \<open>The icon: configuration, masks and layers\<close>

definition size_px :: int where "size_px = 256"
definition padding :: int where "padding = 20"
definition border_width :: int where "border_width = 8"

definition color_cyan :: color where "color_cyan = RGB 0 212 255"
definition color_purple :: color where "color_purple = RGB 189 0 255"
definition color_bg :: color where "color_bg = RGB 10 10 18"
definition color_white :: color where "color_white = RGB 255 255 255"

definition corner_radius :: int where "corner_radius = 60"

definition outer_shape :: shape where
  "outer_shape =
     RoundedRectangle (padding, padding) (size_px - padding, size_px - padding) corner_radius"

definition mask_L :: "platform \<Rightarrow> u8 image" where
  \<comment> \<open>the program's \<^verbatim>\<open>mask\<close>: the outer rounded square, drawn with \<^verbatim>\<open>fill=255\<close> on zeros\<close>
  "mask_L lib =
     draw (covers lib) outer_shape (clip8 255)
       (image_new (nat size_px) (nat size_px) (clip8 0))"

definition gradient :: "error + rgba image" where
  "gradient = create_gradient (nat size_px) (nat size_px) color_cyan color_purple"

definition icon_shape_badge :: "platform \<Rightarrow> error + rgba image" where
  \<comment> \<open>\<^verbatim>\<open>icon_shape\<close> after \<^verbatim>\<open>icon_shape.paste(gradient, (0,0), mask)\<close>\<close>
  "icon_shape_badge lib =
     and_then gradient (\<lambda>g.
       paste (image_new (nat size_px) (nat size_px) (ink_RGBA (RGBA 0 0 0 0))) g (mask_L lib))"

definition inner_padding :: int where "inner_padding = padding + border_width"

definition inner_shape :: shape where
  "inner_shape =
     RoundedRectangle (inner_padding, inner_padding)
       (size_px - inner_padding, size_px - inner_padding) (corner_radius - 5)"

definition inner_mask :: "platform \<Rightarrow> u8 image" where
  "inner_mask lib =
     draw (covers lib) inner_shape (clip8 255)
       (image_new (nat size_px) (nat size_px) (clip8 0))"

definition dark_layer :: "rgba image" where
  "dark_layer = image_new (nat size_px) (nat size_px) (ink_RGBA color_bg)"

definition icon_shape_panel :: "platform \<Rightarrow> error + rgba image" where
  \<comment> \<open>\<^verbatim>\<open>icon_shape\<close> after \<^verbatim>\<open>icon_shape.paste(dark_layer, (0,0), inner_mask)\<close>\<close>
  "icon_shape_panel lib =
     and_then (icon_shape_badge lib) (\<lambda>icon_shape. paste icon_shape dark_layer (inner_mask lib))"

section \<open>The glyphs\<close>

definition center_x :: int where "center_x = size_px div 2"
definition center_y :: int where "center_y = size_px div 2"

definition arrow_width :: int where "arrow_width = 20"
definition arrow_size :: int where "arrow_size = 60"
definition arrow_offset_x :: int where "arrow_offset_x = - 30"

definition p1 :: point where
  "p1 = (center_x + arrow_offset_x - arrow_size div 2, center_y - arrow_size)"
definition p2 :: point where
  "p2 = (center_x + arrow_offset_x + arrow_size div 2, center_y)"
definition p3 :: point where
  "p3 = (center_x + arrow_offset_x - arrow_size div 2, center_y + arrow_size)"

text \<open>A drawing call on the canvas: the shape and the \<^verbatim>\<open>fill\<close> colour.\<close>

type_synonym stroke = "shape \<times> color"

definition glow_alpha :: "nat \<Rightarrow> int" where
  \<comment> \<open>\<^verbatim>\<open>alpha = int(50 / i)\<close>\<close>
  "glow_alpha i = py_int (50 / of_nat i)"

definition glow_alpha_double :: "nat \<Rightarrow> int" where
  \<comment> \<open>the same line evaluated in double precision\<close>
  "glow_alpha_double i = py_int (py_truediv 50 (int i))"

definition arrow_glow :: "nat \<Rightarrow> stroke" where
  \<comment> \<open>the body of the first glow loop\<close>
  "arrow_glow i =
     (let alpha = glow_alpha i;
          w = arrow_width + (int i * 4)
      in (Line [p1, p2, p3] w ''curve'', with_alpha color_cyan alpha))"

definition arrow_glow_pass :: "stroke list" where
  "arrow_glow_pass = map arrow_glow (range_down 5)"

definition arrow_main :: stroke where
  "arrow_main = (Line [p1, p2, p3] arrow_width ''curve'', color_white)"

definition cursor_w :: int where "cursor_w = 50"
definition cursor_h :: int where "cursor_h = 15"
definition cursor_x :: int where "cursor_x = center_x + 30"
definition cursor_y :: int where "cursor_y = center_y + 40"

definition cursor_rect :: "int list" where
  "cursor_rect = [cursor_x, cursor_y, cursor_x + cursor_w, cursor_y + cursor_h]"

definition cursor_glow :: "nat \<Rightarrow> stroke" where
  \<comment> \<open>the body of the second glow loop\<close>
  "cursor_glow i =
     (let alpha = glow_alpha i;
          expand = int i * 3;
          r = [cursor_rect ! 0 - expand, cursor_rect ! 1 - expand,
               cursor_rect ! 2 + expand, cursor_rect ! 3 + expand]
      in (Rectangle r, with_alpha color_purple alpha))"

definition cursor_glow_pass :: "stroke list" where
  "cursor_glow_pass = map cursor_glow (range_down 5)"

definition cursor_main :: stroke where
  "cursor_main = (Rectangle cursor_rect, color_purple)"

definition glyph_strokes :: "stroke list" where
  \<comment> \<open>every drawing call on the canvas, in program order\<close>
  "glyph_strokes = arrow_glow_pass @ [arrow_main] @ cursor_glow_pass @ [cursor_main]"

definition draw_stroke :: "platform \<Rightarrow> rgba image \<Rightarrow> stroke \<Rightarrow> rgba image" where
  "draw_stroke lib im st = draw (covers lib) (fst st) (ink_RGBA (snd st)) im"

definition icon_shape_final :: "platform \<Rightarrow> error + rgba image" where
  \<comment> \<open>\<^verbatim>\<open>icon_shape\<close> after the last drawing call: the composited canvas\<close>
  "icon_shape_final lib =
     and_then (icon_shape_panel lib) (\<lambda>icon_shape.
       Inr (foldl (draw_stroke lib) icon_shape glyph_strokes))"

text \<open>What a stroke looks like: its width, the alpha byte of its ink, its rectangle.\<close>

fun stroke_width :: "stroke \<Rightarrow> int" where
  "stroke_width (Line pts w j, c) = w"
| "stroke_width (sh, c) = 0"

fun stroke_alpha :: "stroke \<Rightarrow> int" where
  "stroke_alpha (sh, c) = (case ink_RGBA c of (r, g, b, a) \<Rightarrow> uint a)"

fun stroke_rect :: "stroke \<Rightarrow> int list" where
  "stroke_rect (Rectangle r, c) = r"
| "stroke_rect (sh, c) = []"

text \<open>The bounding box and the corner radius a shape was given.\<close>

fun shape_box :: "shape \<Rightarrow> int list" where
  "shape_box (RoundedRectangle (x0, y0) (x1, y1) r) = [x0, y0, x1, y1]"
| "shape_box (Rectangle r) = r"
| "shape_box (Line pts w j) = []"

fun shape_radius :: "shape \<Rightarrow> int" where
  "shape_radius (RoundedRectangle a b r) = r"
| "shape_radius sh = 0"

text \<open>The glow alpha as the specification words it: \<open>round(50 / i)\<close>, the nearest integer.\<close>

definition spec_glow_alpha :: "nat \<Rightarrow> int" where
  "spec_glow_alpha i = round (50 / of_nat i :: rat)"

section \<open>Files\<close>

text \<open>
  The part of the world the program touches: the file system and the console. A path name
  holds a directory, a regular file, a broken link (a symbolic link whose target does not
  exist and cannot be created, its directory being absent too) or nothing.
  \<^verbatim>\<open>os.path.exists\<close> follows links, so it is false for a broken link as it is for a name that
  holds nothing.
\<close>

datatype node = Dir | File "u8 list" | BrokenLink

record world =
  nodes :: "string \<Rightarrow> node option"
  console :: "string list"

definition os_path_exists :: "world \<Rightarrow> string \<Rightarrow> bool" where
  "os_path_exists w p = (nodes w p \<noteq> None \<and> nodes w p \<noteq> Some BrokenLink)"

text \<open>
  \<^verbatim>\<open>os.path.split\<close>, with the separator as a parameter: the tail is what follows the last
  separator, the head what precedes it, without its trailing separators unless it consists
  of separators only.
\<close>

definition os_path_split :: "char \<Rightarrow> string \<Rightarrow> string \<times> string" where
  "os_path_split sep p =
     (let head = rev (dropWhile (\<lambda>c. c \<noteq> sep) (rev p));
          tail = rev (takeWhile (\<lambda>c. c \<noteq> sep) (rev p))
      in (if head \<noteq> [] \<and> \<not> list_all (\<lambda>c. c = sep) head
          then rev (dropWhile (\<lambda>c. c = sep) (rev head)) else head,
          tail))"

definition makedirs_split :: "char \<Rightarrow> string \<Rightarrow> string \<times> string" where
  \<comment> \<open>\<^verbatim>\<open>head, tail = path.split(name); if not tail: head, tail = path.split(head)\<close>\<close>
  "makedirs_split sep name =
     (case os_path_split sep name of
        (head, tail) \<Rightarrow> if tail = [] then os_path_split sep head else (head, tail))"

text \<open>
  \<^verbatim>\<open>os.mkdir\<close> makes one directory. It needs the directory above (a name without one is
  made in the current directory, which is there), and the name itself must hold nothing: on
  a name that is taken, be it by a broken link, it raises \<^verbatim>\<open>FileExistsError\<close>.
\<close>

definition os_mkdir :: "char \<Rightarrow> string \<Rightarrow> world \<Rightarrow> error + world" where
  "os_mkdir sep name w =
     (let parent = fst (makedirs_split sep name) in
      case (if parent = [] then Some Dir else nodes w parent) of
        None \<Rightarrow> Inl FileNotFoundError
      | Some BrokenLink \<Rightarrow> Inl FileNotFoundError
      | Some (File c) \<Rightarrow> Inl NotADirectoryError
      | Some Dir \<Rightarrow>
          (if nodes w name \<noteq> None then Inl FileExistsError
           else Inr (w\<lparr>nodes := (nodes w)(name \<mapsto> Dir)\<rparr>)))"

text \<open>
  \<^verbatim>\<open>os.makedirs\<close> first makes the directories above that do not exist, by a call of itself
  in which only \<^verbatim>\<open>FileExistsError\<close> is caught, and then the directory asked for. Each call
  works on a shorter name, so the recursion ends.
\<close>

function os_makedirs :: "char \<Rightarrow> string \<Rightarrow> world \<Rightarrow> error + world" where
  "os_makedirs sep name w =
     (if fst (makedirs_split sep name) \<noteq> [] \<and> snd (makedirs_split sep name) \<noteq> []
         \<and> \<not> os_path_exists w (fst (makedirs_split sep name))
      then (case os_makedirs sep (fst (makedirs_split sep name)) w of
              Inl e \<Rightarrow>
                (if e = FileExistsError
                 then (if snd (makedirs_split sep name) = ''.'' then Inr w
                       else os_mkdir sep name w)
                 else Inl e)
            | Inr w' \<Rightarrow>
                (if snd (makedirs_split sep name) = ''.'' then Inr w'
                 else os_mkdir sep name w'))
      else os_mkdir sep name w)"
  by pat_completeness auto
termination
proof (relation "measure (\<lambda>(sep, name, w). length name)", goal_cases)
  case 1
  show ?case by simp
next
  case (2 sep name w)
  have split_le: "length (fst (os_path_split c p)) + length (snd (os_path_split c p)) \<le> length p"
    for c p
  proof -
    have a: "length (dropWhile (\<lambda>x. x \<noteq> c) (rev p)) + length (takeWhile (\<lambda>x. x \<noteq> c) (rev p))
        = length p"
      by (metis add.commute length_append length_rev takeWhile_dropWhile_id)
    have b: "length (dropWhile (\<lambda>x. x = c) xs) \<le> length xs" for xs
      by (simp add: length_dropWhile_le)
    show ?thesis
      using a b [of "rev (rev (dropWhile (\<lambda>x. x \<noteq> c) (rev p)))"]
      by (auto simp add: os_path_split_def Let_def)
  qed
  obtain h t where ht: "os_path_split sep name = (h, t)"
    by (cases "os_path_split sep name")
  have l1: "length h + length t \<le> length name"
    using split_le [of sep name] by (simp add: ht)
  have tl: "snd (makedirs_split sep name) \<noteq> []"
    using 2 by simp
  have "length (fst (makedirs_split sep name)) < length name"
  proof (cases "t = []")
    case True
    then have m: "makedirs_split sep name = os_path_split sep h"
      by (simp add: makedirs_split_def ht)
    have "length (fst (os_path_split sep h)) + length (snd (os_path_split sep h)) \<le> length h"
      by (rule split_le)
    moreover have "snd (os_path_split sep h) \<noteq> []"
      using tl m by simp
    ultimately show ?thesis
      using l1 m by (cases "snd (os_path_split sep h)") auto
  next
    case False
    then have "makedirs_split sep name = (h, t)"
      by (simp add: makedirs_split_def ht)
    then show ?thesis
      using l1 False by (cases t) auto
  qed
  then show ?case by simp
qed

declare os_makedirs.simps [simp del]

definition os_path_join :: "char \<Rightarrow> string \<Rightarrow> string \<Rightarrow> string" where
  "os_path_join sep a b = a @ [sep] @ b"

text \<open>
  Opening a file for writing needs its directory; it cannot replace a directory, and through
  a broken link it finds no place to make the file.
\<close>

definition write_file :: "string \<Rightarrow> string \<Rightarrow> u8 list \<Rightarrow> world \<Rightarrow> error + world" where
  \<comment> \<open>write \<open>content\<close> to \<open>path\<close>, a file directly inside \<open>dir\<close>\<close>
  "write_file dir path content w =
     (case nodes w dir of
        None \<Rightarrow> Inl FileNotFoundError
      | Some BrokenLink \<Rightarrow> Inl FileNotFoundError
      | Some (File old) \<Rightarrow> Inl NotADirectoryError
      | Some Dir \<Rightarrow>
          (case nodes w path of
             Some Dir \<Rightarrow> Inl IsADirectoryError
           | Some BrokenLink \<Rightarrow> Inl FileNotFoundError
           | other \<Rightarrow> Inr (w\<lparr>nodes := (nodes w)(path \<mapsto> File content)\<rparr>)))"

definition writable :: "world \<Rightarrow> string \<Rightarrow> bool" where
  "writable w p = (nodes w p \<noteq> Some Dir \<and> nodes w p \<noteq> Some BrokenLink)"

definition print_line :: "string \<Rightarrow> world \<Rightarrow> world" where
  "print_line s w = w\<lparr>console := console w @ [s]\<rparr>"

section \<open>The icon container\<close>

text \<open>
  What \<^verbatim>\<open>save(..., format='ICO', sizes=..., append_images=...)\<close> of the imaging library
  writes when, as here, the bitmap format is not asked for. The writer goes through the
  requested sizes in ascending order, each size once, leaving out a size larger than the base
  image or than 256; for each size it stores the first of the images it was given (the base
  image, then \<^verbatim>\<open>append_images\<close>) that has this size, and a thumbnail where there is none. The file is the header with the number of
  frames, one 16-byte directory entry per frame (width and height in a byte each, 0 standing
  for 256; 32 bits per pixel; length and offset of the frame's data), and then the data of
  the frames, each encoded as PNG. Numbers are little-endian.
\<close>

definition ico_frames ::
  "platform \<Rightarrow> rgba image \<Rightarrow> (nat \<times> nat) list \<Rightarrow> rgba image list \<Rightarrow> rgba image list" where
  "ico_frames lib im szs append_images =
     (let provided_ims = im # append_images in
      map (\<lambda>s.
             case find (\<lambda>provided_im. (im_width provided_im, im_height provided_im) = s)
                       provided_ims of
               Some provided_im \<Rightarrow> provided_im
             | None \<Rightarrow> thumbnail_lanczos lib provided_ims s)
          (filter (\<lambda>s. \<not> (fst s > im_width im \<or> snd s > im_height im
                            \<or> fst s > 256 \<or> snd s > 256))
                  (sort (remdups szs))))"

definition o8 :: "nat \<Rightarrow> u8 list" where
  "o8 i = [of_nat i]"

definition o16 :: "nat \<Rightarrow> u8 list" where
  "o16 i = [of_nat i, of_nat (i div 256)]"

definition o32 :: "nat \<Rightarrow> u8 list" where
  "o32 i = [of_nat i, of_nat (i div 256), of_nat (i div 65536), of_nat (i div 16777216)]"

fun ico_entries :: "platform \<Rightarrow> nat \<Rightarrow> rgba image list \<Rightarrow> u8 list" where
  "ico_entries lib offset [] = []"
| "ico_entries lib offset (frame # frames) =
     o8 (if im_width frame < 256 then im_width frame else 0)
     @ o8 (if im_height frame < 256 then im_height frame else 0)
     @ o8 0 @ [0] @ [0, 0] @ o16 32
     @ o32 (length (encode_png lib frame)) @ o32 offset
     @ ico_entries lib (offset + length (encode_png lib frame)) frames"

definition ico_container :: "platform \<Rightarrow> rgba image list \<Rightarrow> u8 list" where
  "ico_container lib frames =
     [0, 0, 1, 0] @ o16 (length frames)
     @ ico_entries lib (6 + length frames * 16) frames
     @ concat (map (encode_png lib) frames)"

definition ico_save ::
  "platform \<Rightarrow> rgba image \<Rightarrow> (nat \<times> nat) list \<Rightarrow> rgba image list \<Rightarrow> u8 list" where
  "ico_save lib im szs append_images = ico_container lib (ico_frames lib im szs append_images)"

text \<open>
  Reading a container back: the number of frames in its header, and the sizes its directory
  lists, in the order of the entries.
\<close>

definition ico_dim :: "u8 \<Rightarrow> nat" where
  "ico_dim b = (if b = 0 then 256 else unat b)"

definition ico_count :: "u8 list \<Rightarrow> nat" where
  "ico_count bs = unat (bs ! 4) + 256 * unat (bs ! 5)"

definition ico_directory :: "u8 list \<Rightarrow> (nat \<times> nat) list" where
  "ico_directory bs =
     map (\<lambda>k. (ico_dim (bs ! (6 + 16 * k)), ico_dim (bs ! (7 + 16 * k)))) [0..<ico_count bs]"

section \<open>Saving the icon\<close>

definition output_dir :: string where
  \<comment> \<open>\<^verbatim>\<open>r"D:\Qian_code\ai_program\MyAiHelper\Assets"\<close>; \<open>CHR 0x5C\<close> is the backslash\<close>
  "output_dir = ''D:'' @ [CHR 0x5C] @ ''Qian_code'' @ [CHR 0x5C] @ ''ai_program''
                 @ [CHR 0x5C] @ ''MyAiHelper'' @ [CHR 0x5C] @ ''Assets''"

definition ensure_output_dir :: "platform \<Rightarrow> world \<Rightarrow> error + world" where
  \<comment> \<open>\<^verbatim>\<open>if not os.path.exists(output_dir): os.makedirs(output_dir)\<close>\<close>
  "ensure_output_dir lib w =
     (if \<not> os_path_exists w output_dir then os_makedirs (path_sep lib) output_dir w
      else Inr w)"

definition output_parent :: "platform \<Rightarrow> string" where
  \<comment> \<open>the directory above the output directory; empty where the name has none\<close>
  "output_parent lib = fst (makedirs_split (path_sep lib) output_dir)"

definition output_path :: "platform \<Rightarrow> string" where
  "output_path lib = os_path_join (path_sep lib) output_dir ''app.ico''"

definition png_path :: "platform \<Rightarrow> string" where
  "png_path lib = os_path_join (path_sep lib) output_dir ''app.png''"

definition sizes :: "(nat \<times> nat) list" where
  "sizes = [(256, 256), (128, 128), (64, 64), (48, 48), (32, 32), (16, 16)]"

definition icon_images :: "platform \<Rightarrow> rgba image \<Rightarrow> rgba image list" where
  \<comment> \<open>the loop over \<^verbatim>\<open>sizes\<close>, appending one resampled copy per size\<close>
  "icon_images lib icon_shape =
     foldl (\<lambda>acc s. acc @ [resize lib icon_shape s]) [] sizes"

definition ico_bytes :: "platform \<Rightarrow> rgba image \<Rightarrow> u8 list" where
  \<comment> \<open>\<^verbatim>\<open>icon_images[0].save(..., format='ICO', sizes=sizes, append_images=icon_images[1:])\<close>\<close>
  "ico_bytes lib icon_shape =
     (let imgs = icon_images lib icon_shape
      in ico_save lib (imgs ! 0) sizes (drop 1 imgs))"

definition save_outputs :: "platform \<Rightarrow> rgba image \<Rightarrow> world \<Rightarrow> error + world" where
  "save_outputs lib icon_shape w =
     and_then (ensure_output_dir lib w) (\<lambda>w.
     and_then (write_file output_dir (output_path lib) (ico_bytes lib icon_shape) w) (\<lambda>w.
     let w = print_line (''Icon generated successfully at: '' @ output_path lib) w in
     and_then (write_file output_dir (png_path lib) (encode_png lib icon_shape) w) (\<lambda>w.
     Inr (print_line (''PNG version saved at: '' @ png_path lib) w))))"

definition generate_app_icon :: "platform \<Rightarrow> world \<Rightarrow> error + world" where
  "generate_app_icon lib w =
     and_then (icon_shape_final lib) (\<lambda>icon_shape. save_outputs lib icon_shape w)"

section \<open>Sample platforms and worlds\<close>

text \<open>
  A small platform on which every step of the program can be evaluated: its rasteriser fills
  the bounding box of a rounded rectangle and of a rectangle and draws nothing for a
  polyline, its resampler picks the nearest pixel, its encoder writes the raw channel bytes,
  and its path separator is the slash, so that the output directory is a single name in the
  current directory. A second platform differs in the separator only: it is the backslash,
  and the output directory lies four directories deep.
\<close>

fun box_covers :: "shape \<Rightarrow> nat \<Rightarrow> nat \<Rightarrow> bool" where
  "box_covers (RoundedRectangle (x0, y0) (x1, y1) r) x y =
     (x0 \<le> int x \<and> int x \<le> x1 \<and> y0 \<le> int y \<and> int y \<le> y1)"
| "box_covers (Rectangle [x0, y0, x1, y1]) x y =
     (x0 \<le> int x \<and> int x \<le> x1 \<and> y0 \<le> int y \<and> int y \<le> y1)"
| "box_covers sh x y = False"

definition nearest_pixels :: "rgba image \<Rightarrow> nat \<times> nat \<Rightarrow> rgba list" where
  "nearest_pixels im s =
     (case s of (w, h) \<Rightarrow>
        map (\<lambda>i. getpixel im ((i mod w) * im_width im div w) ((i div w) * im_height im div h))
            [0..<w * h])"

definition nearest_thumbnail :: "rgba image list \<Rightarrow> nat \<times> nat \<Rightarrow> rgba image" where
  "nearest_thumbnail ims s =
     \<lparr>im_width = fst s, im_height = snd s, im_data = nearest_pixels (last ims) s\<rparr>"

fun rgba_bytes :: "rgba \<Rightarrow> u8 list" where
  "rgba_bytes (r, g, b, a) = [r, g, b, a]"

definition raw_png :: "rgba image \<Rightarrow> u8 list" where
  "raw_png im = concat (map rgba_bytes (im_data im))"

definition sample_platform :: platform where
  "sample_platform =
     \<lparr>covers = box_covers, resample_lanczos = nearest_pixels,
      thumbnail_lanczos = nearest_thumbnail, encode_png = raw_png, path_sep = CHR ''/''\<rparr>"


definition empty_world :: world where
  "empty_world = \<lparr>nodes = (\<lambda>p. None), console = []\<rparr>"

text \<open>A world in which an earlier run has left the directory and two files of other content.\<close>

definition stale_world :: world where
  "stale_world =
     \<lparr>nodes = (\<lambda>p. None)(output_dir \<mapsto> Dir, output_path sample_platform \<mapsto> File [0],
                png_path sample_platform \<mapsto> File [1]),
      console = [''earlier output'']\<rparr>"




section \<open>Double-precision arithmetic\<close>

text \<open>
  The exponent that \<open>expo\<close> finds is the right one (\<open>expo_spec\<close>), so \<open>double_round\<close>
  moves its argument by at most half a unit in the last place (\<open>double_round_error\<close>), and
  a double that lies less than half a unit from the argument is the result
  (\<open>double_round_cert\<close>). From these, \<^verbatim>\<open>int(255 * (k / n))\<close> in double precision is the
  integer quotient of \<open>255 * k\<close> by \<open>n\<close> for \<open>k < n \<le> 2 ^ 32\<close> (\<open>float_quotient_exact\<close>).
  Where \<open>n\<close> does not divide \<open>255 * k\<close>, the exact value stays \<open>1 / n\<close> away from the
  integers next to it, far more than the two roundings move it. Where it does, the quotient
  \<open>k / n\<close> is \<open>m / 255\<close> for an integer \<open>m\<close>, and \<open>255 * (m / 255)\<close> rounds back to \<open>m\<close>
  (\<open>round_trip_255\<close>).
\<close>

lemma pow2_pos: "0 < (2::rat) powi e"
  by simp

lemma pow2_add: "(2::rat) powi (a + b) = 2 powi a * 2 powi b"
  by (simp add: power_int_add)

lemma pow2_less_iff: "(2::rat) powi a < 2 powi b \<longleftrightarrow> a < b"
proof
  assume "(2::rat) powi a < 2 powi b"
  show "a < b"
  proof (rule ccontr)
    assume "\<not> a < b"
    then have "b \<le> a" by simp
    then have "(2::rat) powi b \<le> 2 powi a" by (intro power_int_increasing) simp_all
    with \<open>(2::rat) powi a < 2 powi b\<close> show False by simp
  qed
next
  assume "a < b"
  then show "(2::rat) powi a < 2 powi b" by (intro power_int_strict_increasing) simp_all
qed

lemma pow2_le_iff: "(2::rat) powi a \<le> 2 powi b \<longleftrightarrow> a \<le> b"
  using pow2_less_iff [of b a] by (simp add: not_less [symmetric])

lemma bitlen_pow2_bounds:
  assumes "0 < a"
  shows "(2::rat) powi (bitlen a - 1) \<le> of_int a" "(of_int a :: rat) < 2 powi (bitlen a)"
proof -
  have b1: "1 \<le> bitlen a" using assms by (simp add: bitlen_alt_def)
  from bitlen_bounds [OF assms] have lo: "2 ^ nat (bitlen a - 1) \<le> a" and hi: "a < 2 ^ nat (bitlen a)"
    by simp_all
  have "(2::rat) powi (bitlen a - 1) = of_int (2 ^ nat (bitlen a - 1))"
    using b1 by (simp add: power_int_def)
  also have "\<dots> \<le> of_int a" using lo by (simp only: of_int_le_iff)
  finally show "(2::rat) powi (bitlen a - 1) \<le> of_int a" .
  have "(of_int a :: rat) < of_int (2 ^ nat (bitlen a))" using hi by (simp only: of_int_less_iff)
  also have "\<dots> = 2 powi (bitlen a)" using b1 by (simp add: power_int_def)
  finally show "(of_int a :: rat) < 2 powi (bitlen a)" .
qed

lemma expo_spec:
  assumes "0 < x"
  shows "2 powi (expo x) \<le> x \<and> x < 2 powi (expo x + 1)"
proof -
  obtain a b where q: "quotient_of x = (a, b)" by (cases "quotient_of x")
  have b: "0 < b" using quotient_of_denom_pos [OF q] .
  have x: "x = of_int a / of_int b" using quotient_of_div [OF q] .
  have a: "0 < a" using assms b unfolding x by (simp add: zero_less_divide_iff)
  define d where "d = bitlen a - bitlen b"
  have ra: "(0::rat) < of_int a" "(0::rat) < of_int b" using a b by simp_all
  have up: "x < 2 powi (d + 1)"
  proof -
    have "x * of_int b = of_int a" using b by (simp add: x)
    also have "\<dots> < 2 powi (bitlen a)" by (rule bitlen_pow2_bounds [OF a])
    also have "\<dots> = 2 powi (d + 1) * 2 powi (bitlen b - 1)"
      by (simp add: d_def flip: pow2_add)
    also have "\<dots> \<le> 2 powi (d + 1) * of_int b"
      by (intro mult_left_mono bitlen_pow2_bounds [OF b]) simp
    finally show ?thesis using ra by simp
  qed
  have lo: "2 powi (d - 1) < x"
  proof -
    have "(2::rat) powi (d - 1) * of_int b < 2 powi (d - 1) * 2 powi (bitlen b)"
      by (intro mult_strict_left_mono bitlen_pow2_bounds [OF b]) simp
    also have "\<dots> = 2 powi (bitlen a - 1)"
      by (simp add: d_def flip: pow2_add)
    also have "\<dots> \<le> of_int a" by (rule bitlen_pow2_bounds [OF a])
    also have "\<dots> = x * of_int b" using b by (simp add: x)
    finally show ?thesis using ra by simp
  qed
  have e: "expo x = (if 2 powi d \<le> x then d else d - 1)"
    by (simp add: expo_def q d_def Let_def)
  show ?thesis
  proof (cases "2 powi d \<le> x")
    case True
    then show ?thesis using up by (simp add: e)
  next
    case False
    then show ?thesis using lo by (simp add: e)
  qed
qed

lemma expo_unique:
  assumes "0 < x" "2 powi e \<le> x" "x < 2 powi (e + 1)"
  shows "expo x = e"
proof -
  from expo_spec [OF assms(1)] have s: "2 powi (expo x) \<le> x" "x < 2 powi (expo x + 1)"
    by simp_all
  have "(2::rat) powi e < 2 powi (expo x + 1)" using assms(2) s(2) by simp
  then have "e < expo x + 1" by (simp only: pow2_less_iff)
  moreover have "(2::rat) powi (expo x) < 2 powi (e + 1)" using assms(3) s(1) by simp
  then have "expo x < e + 1" by (simp only: pow2_less_iff)
  ultimately show ?thesis by simp
qed

lemma rne_near: "\<bar>of_int (rne t) - t\<bar> \<le> 1 / 2"
proof -
  have "of_int \<lfloor>t\<rfloor> \<le> t" "t < of_int \<lfloor>t\<rfloor> + 1" by linarith+
  then show ?thesis
    unfolding rne_def Let_def by (auto simp add: abs_le_iff)
qed

lemma rne_unique:
  assumes "\<bar>t - of_int c\<bar> < 1 / 2"
  shows "rne t = c"
proof -
  have n: "\<bar>of_int (rne t) - t\<bar> \<le> 1 / 2" by (rule rne_near)
  have "\<bar>(of_int (rne t) :: rat) - of_int c\<bar> < 1" using n assms by linarith
  then have "\<bar>(of_int (rne t - c) :: rat)\<bar> < 1" by simp
  then have "\<bar>rne t - c\<bar> < 1" by (simp only: of_int_abs [symmetric] of_int_less_1_iff)
  then show ?thesis by simp
qed

lemma double_round_pos:
  assumes "0 < x"
  shows "double_round x = of_int (rne (x / 2 powi (expo x - 52))) * 2 powi (expo x - 52)"
  using assms by (simp add: double_round_def Let_def)

lemma double_round_error:
  assumes "0 < x" "x < 2 powi E"
  shows "\<bar>double_round x - x\<bar> \<le> 2 powi (E - 54)"
proof -
  define u :: rat where "u = 2 powi (expo x - 52)"
  have u: "0 < u" by (simp add: u_def)
  have "(2::rat) powi (expo x) < 2 powi E" using expo_spec [OF assms(1)] assms(2) by simp
  then have "expo x < E" by (simp only: pow2_less_iff)
  then have "expo x - 53 \<le> E - 54" by simp
  then have le: "(2::rat) powi (expo x - 53) \<le> 2 powi (E - 54)" by (simp only: pow2_le_iff)
  have half: "u / 2 = 2 powi (expo x - 53)"
  proof -
    have "(2::rat) powi (expo x - 52) = 2 powi ((expo x - 53) + 1)" by simp
    also have "\<dots> = 2 powi (expo x - 53) * 2" by (simp only: pow2_add) simp
    finally show ?thesis by (simp add: u_def)
  qed
  have "double_round x - x = (of_int (rne (x / u)) - x / u) * u"
    using u by (simp add: double_round_pos [OF assms(1)] u_def [symmetric] algebra_simps)
  then have "\<bar>double_round x - x\<bar> = \<bar>of_int (rne (x / u)) - x / u\<bar> * u"
    using u by (simp add: abs_mult)
  also have "\<dots> \<le> (1 / 2) * u"
    using u rne_near [of "x / u"] by (intro mult_right_mono) simp_all
  also have "\<dots> = 2 powi (expo x - 53)" using half by simp
  finally show ?thesis using le by simp
qed

lemma double_round_cert:
  assumes "0 < x" "2 powi e \<le> x" "x < 2 powi (e + 1)"
    and "\<bar>x - of_int c * 2 powi (e - 52)\<bar> < 2 powi (e - 52) / 2"
  shows "double_round x = of_int c * 2 powi (e - 52)"
proof -
  define u :: rat where "u = 2 powi (e - 52)"
  have u: "0 < u" by (simp add: u_def)
  have e: "expo x = e" by (rule expo_unique [OF assms(1-3)])
  have "x / u - of_int c = (x - of_int c * u) / u"
    using u by (simp add: field_simps)
  then have "\<bar>x / u - of_int c\<bar> = \<bar>x - of_int c * u\<bar> / u"
    using u by (simp only: abs_divide abs_of_pos)
  also have "\<dots> < 1 / 2"
    using assms(4) u by (simp add: u_def [symmetric] pos_divide_less_eq)
  finally have "rne (x / u) = c" by (rule rne_unique)
  then show ?thesis
    by (simp add: double_round_pos [OF assms(1)] e u_def)
qed


lemma pow2_shift: "(2::rat) powi (j + k) = 2 powi j * 2 powi k"
  by (rule pow2_add)

lemma round_trip_pow2:
  fixes j :: int
  defines "B \<equiv> (2::rat) powi j"
  shows "double_round (255 * double_round (B / 255)) = B"
proof -
  have B: "0 < B" by (simp add: B_def)
  have e1: "(2::rat) powi (j - 8) = B / 256" "(2::rat) powi (j - 8 + 1) = B / 128"
    "(2::rat) powi (j - 8 - 52) = B / 2 ^ 60"
    using pow2_shift [of j "- 8"] pow2_shift [of j "- 7"] pow2_shift [of j "- 60"]
    by (simp_all add: B_def)
  have "double_round (B / 255) = of_int 4521260802379792 * 2 powi (j - 8 - 52)"
  proof (rule double_round_cert)
    show "0 < B / 255" using B by simp
    show "2 powi (j - 8) \<le> B / 255" unfolding e1 using B by simp
    show "B / 255 < 2 powi (j - 8 + 1)" unfolding e1 using B by simp
    show "\<bar>B / 255 - of_int 4521260802379792 * 2 powi (j - 8 - 52)\<bar> < 2 powi (j - 8 - 52) / 2"
      unfolding e1 using B by (simp add: abs_less_iff)
  qed
  then have p: "255 * double_round (B / 255) = B * (1 - 1 / 2 ^ 56)"
    unfolding e1 by (simp add: algebra_simps)
  have e2: "(2::rat) powi (j - 1) = B / 2" "(2::rat) powi (j - 1 + 1) = B"
    "(2::rat) powi (j - 1 - 52) = B / 2 ^ 53"
    using pow2_shift [of j "- 1"] pow2_shift [of j "- 53"] by (simp_all add: B_def)
  have "double_round (B * (1 - 1 / 2 ^ 56)) = of_int 9007199254740992 * 2 powi (j - 1 - 52)"
  proof (rule double_round_cert)
    show "0 < B * (1 - 1 / 2 ^ 56)" using B by simp
    show "2 powi (j - 1) \<le> B * (1 - 1 / 2 ^ 56)" unfolding e2 using B by simp
    show "B * (1 - 1 / 2 ^ 56) < 2 powi (j - 1 + 1)" unfolding e2 using B by simp
    show "\<bar>B * (1 - 1 / 2 ^ 56) - of_int 9007199254740992 * 2 powi (j - 1 - 52)\<bar>
            < 2 powi (j - 1 - 52) / 2"
      unfolding e2 using B by (simp add: abs_less_iff algebra_simps)
  qed
  then show ?thesis
    unfolding p e2 by simp
qed


lemma round_trip_open:
  fixes m j :: int
  assumes j: "0 \<le> j" "j \<le> 7" and m: "2 ^ nat j < m" "m < 2 * 2 ^ nat j" "m \<le> 254"
  shows "double_round (255 * double_round (of_int m / 255)) = of_int m"
proof -
  define B :: rat where "B = 2 powi j"
  have Bint: "B = of_int (2 ^ nat j)" using j by (simp add: B_def power_int_def)
  have B0: "0 < B" by (simp add: B_def)
  have "2 ^ nat j + 1 \<le> m" using m(1) by simp
  then have "(of_int (2 ^ nat j + 1) :: rat) \<le> of_int m" by (simp only: of_int_le_iff)
  then have B1: "B + 1 \<le> of_int m" by (simp add: Bint)
  have "m \<le> 2 * 2 ^ nat j - 1" using m(2) by simp
  then have "(of_int m :: rat) \<le> of_int (2 * 2 ^ nat j - 1)" by (simp only: of_int_le_iff)
  then have B2: "of_int m \<le> 2 * B - 1" by (simp add: Bint)
  have "(of_int m :: rat) \<le> of_int 254" using m(3) by (simp only: of_int_le_iff)
  then have m254: "(of_int m :: rat) \<le> 254" by simp
  have "j \<le> 6 \<or> j = 7" using j by linarith
  then have Bb: "B \<le> 64 \<or> B = 128"
  proof
    assume "j \<le> 6"
    then have "(2::rat) powi j \<le> 2 powi 6" by (simp only: pow2_le_iff)
    then show ?thesis by (simp add: B_def)
  next
    assume "j = 7"
    then show ?thesis by (simp add: B_def)
  qed
  define x :: rat where "x = of_int m / 255"
  have x0: "0 < x" using B0 B1 by (simp add: x_def)
  have e1: "(2::rat) powi (j - 7) = B / 128" "(2::rat) powi (j - 7 - 54) = B / 2 ^ 61"
    using pow2_shift [of j "- 7"] pow2_shift [of j "- 61"] by (simp_all add: B_def)
  have "x < B / 128" using Bb B2 m254 by (auto simp add: x_def)
  then have "x < 2 powi (j - 7)" by (simp only: e1)
  from double_round_error [OF x0 this]
  have err: "\<bar>double_round x - x\<bar> \<le> B / 2 ^ 61" by (simp only: e1)
  define y :: rat where "y = 255 * double_round x"
  have "y - of_int m = 255 * (double_round x - x)"
    by (simp add: y_def x_def)
  then have "\<bar>y - of_int m\<bar> = \<bar>255 * (double_round x - x)\<bar>"
    by (rule arg_cong)
  also have "\<dots> = 255 * \<bar>double_round x - x\<bar>"
  proof -
    have "\<bar>255 * z\<bar> = 255 * \<bar>z\<bar>" for z :: rat by (simp add: abs_mult)
    then show ?thesis .
  qed
  finally have ym: "\<bar>y - of_int m\<bar> \<le> 255 * (B / 2 ^ 61)"
    using err by simp
  define t :: rat where "t = B / 2 ^ 53"
  have t: "0 < t" "t < 1" using B0 Bb by (auto simp add: t_def)
  have "255 * (B / 2 ^ 61) < t" using B0 by (simp add: t_def)
  with ym have "\<bar>y - of_int m\<bar> < t" by (rule le_less_trans)
  then have ylo: "of_int m - t < y" and yhi: "y < of_int m + t"
    by (simp_all add: abs_less_iff)
  define c :: int where "c = m * 2 ^ nat (52 - j)"
  have e2: "(2::rat) powi (j + 1) = 2 * B" "(2::rat) powi (j - 52) = B / 2 ^ 52"
    using pow2_shift [of j 1] pow2_shift [of j "- 52"] by (simp_all add: B_def)
  have "(2::rat) powi (52 - j) * 2 powi (j - 52) = 1"
    by (simp flip: pow2_add)
  moreover have "(of_int (2 ^ nat (52 - j)) :: rat) = 2 powi (52 - j)"
    using j by (simp add: power_int_def)
  ultimately have cu: "of_int c * (2::rat) powi (j - 52) = of_int m"
    by (simp add: c_def)
  have "double_round y = of_int c * 2 powi (j - 52)"
  proof (rule double_round_cert)
    show "0 < y" using ylo t B0 B1 by linarith
    show "2 powi j \<le> y" unfolding B_def [symmetric] using ylo t B1 by linarith
    show "y < 2 powi (j + 1)" unfolding e2 using yhi t B2 by linarith
    have "B / 2 ^ 52 / 2 = t" by (simp add: t_def)
    then show "\<bar>y - of_int c * 2 powi (j - 52)\<bar> < 2 powi (j - 52) / 2"
      unfolding cu unfolding e2 using ylo yhi by (simp add: abs_less_iff)
  qed
  then show ?thesis by (simp only: cu y_def x_def)
qed


lemma binade_of_byte:
  fixes m :: int
  assumes "1 \<le> m" "m \<le> 254"
  obtains j :: int where "0 \<le> j" "j \<le> 7" "2 ^ nat j \<le> m" "m < 2 * 2 ^ nat j"
proof -
  consider "m < 2" | "2 \<le> m \<and> m < 4" | "4 \<le> m \<and> m < 8" | "8 \<le> m \<and> m < 16"
    | "16 \<le> m \<and> m < 32" | "32 \<le> m \<and> m < 64" | "64 \<le> m \<and> m < 128" | "128 \<le> m"
    by linarith
  then show ?thesis
  proof cases
    case 1 then show ?thesis using assms that [of 0] by simp
  next
    case 2 then show ?thesis using that [of 1] by simp
  next
    case 3 then show ?thesis using that [of 2] by simp
  next
    case 4 then show ?thesis using that [of 3] by simp
  next
    case 5 then show ?thesis using that [of 4] by simp
  next
    case 6 then show ?thesis using that [of 5] by simp
  next
    case 7 then show ?thesis using that [of 6] by simp
  next
    case 8 then show ?thesis using assms that [of 7] by simp
  qed
qed

lemma round_trip_255:
  fixes m :: int
  assumes "0 \<le> m" "m \<le> 254"
  shows "double_round (255 * double_round (of_int m / 255)) = of_int m"
proof (cases "m = 0")
  case True
  then show ?thesis by (simp add: double_round_def)
next
  case False
  then have "1 \<le> m" using assms by simp
  then obtain j :: int where j: "0 \<le> j" "j \<le> 7" "2 ^ nat j \<le> m" "m < 2 * 2 ^ nat j"
    using assms(2) by (rule binade_of_byte)
  show ?thesis
  proof (cases "m = 2 ^ nat j")
    case True
    then have "(of_int m :: rat) = 2 powi j" using j(1) by (simp add: power_int_def)
    then show ?thesis using round_trip_pow2 [of j] by simp
  next
    case False
    then have "2 ^ nat j < m" using j(3) by simp
    then show ?thesis using j assms(2) by (intro round_trip_open) simp_all
  qed
qed

lemma py_int_nonneg: "0 \<le> r \<Longrightarrow> py_int r = \<lfloor>r\<rfloor>"
  by (simp add: py_int_def)

lemma float_quotient_exact:
  fixes k n :: nat
  assumes "k < n" "n \<le> 2 ^ 32"
  shows "py_int (py_float_mul 255 (py_truediv (int k) (int n))) = (255 * int k) div int n"
proof -
  define q where "q = (255 * int k) div int n"
  define r where "r = (255 * int k) mod int n"
  have n0: "0 < n" using assms(1) by simp
  have qr: "255 * int k = q * int n + r" by (simp add: q_def r_def)
  have r: "0 \<le> r" "r < int n" using n0 by (simp_all add: r_def)
  have q0: "0 \<le> q" unfolding q_def by (simp only: div_int_pos_iff) simp
  have "255 * int k < 255 * int n" using assms(1) by simp
  then have "q * int n < 255 * int n" using qr r(1) by linarith
  then have "q < 255" by (rule mult_right_less_imp_less) simp
  then have q254: "q \<le> 254" by simp
  define x :: rat where "x = of_int (int k) / of_int (int n)"
  have rn: "(0::rat) < of_nat n" using n0 by simp
  have tq: "255 * x = of_int q + of_int r / of_nat n"
  proof -
    have "255 * x * of_nat n = of_int (255 * int k)" using rn by (simp add: x_def)
    also have "\<dots> = of_int q * of_nat n + of_int r" by (simp add: qr)
    finally show ?thesis using rn by (simp add: field_simps)
  qed
  have goal: "py_int (py_float_mul 255 (py_truediv (int k) (int n)))
                = py_int (double_round (255 * double_round x))"
    by (simp add: py_float_mul_def py_truediv_def x_def)
  show ?thesis
  proof (cases "r = 0")
    case True
    then have "255 * x = of_int q" using tq by simp
    then have "x = of_int q / 255" by linarith
    then have "double_round (255 * double_round x) = of_int q"
      using round_trip_255 [OF q0 q254] by (simp only:)
    then show ?thesis using q0 by (simp add: goal py_int_nonneg q_def)
  next
    case False
    define d :: rat where "d = 1 / of_nat n"
    have "(of_nat n :: rat) \<le> of_nat (2 ^ 32)" using assms(2) by (simp only: of_nat_le_iff)
    then have "(of_nat n :: rat) \<le> 2 ^ 32" by simp
    then have d: "1 / 2 ^ 32 \<le> d" unfolding d_def using rn by (intro divide_left_mono) simp_all
    have "1 \<le> r" using False r(1) by simp
    then have "(1::rat) \<le> of_int r" by simp
    then have "1 / of_nat n \<le> of_int r / (of_nat n :: rat)"
      using rn by (intro divide_right_mono) simp_all
    then have tlo: "of_int q + d \<le> 255 * x" by (simp add: tq d_def)
    have "r \<le> int n - 1" using r(2) by simp
    then have "(of_int r :: rat) \<le> of_int (int n - 1)" by (simp only: of_int_le_iff)
    then have "(of_int r :: rat) \<le> of_nat n - 1" by simp
    then have "of_int r / (of_nat n :: rat) \<le> (of_nat n - 1) / of_nat n"
      using rn by (intro divide_right_mono) simp_all
    also have "\<dots> = 1 - d" using rn by (simp add: d_def field_simps)
    finally have thi: "255 * x \<le> of_int q + 1 - d" by (simp add: tq)
    have "k \<noteq> 0"
    proof
      assume "k = 0"
      then have "r = 0" by (simp add: r_def)
      with False show False by simp
    qed
    then have x0: "0 < x" using n0 by (simp add: x_def)
    have "x < 1" using assms(1) n0 by (simp add: x_def)
    then have "x < 2 powi 0" by simp
    define a :: rat where "a = 2 powi (- 54)"
    define b :: rat where "b = 2 powi (- 46)"
    from double_round_error [OF x0 \<open>x < 2 powi 0\<close>]
    have e1: "\<bar>double_round x - x\<bar> \<le> a" by (simp add: a_def)
    have ab: "0 < a" "0 < b" "255 * a + b < 1 / 2 ^ 32" by (simp_all add: a_def b_def)
    then have abd: "255 * a + b < d" using d by simp
    have d1: "d \<le> 1" unfolding d_def using rn n0 by simp
    define y :: rat where "y = 255 * double_round x"
    have "double_round x - x \<le> a" "x - double_round x \<le> a"
      using e1 by (simp_all add: abs_le_iff)
    then have y1: "y - 255 * x \<le> 255 * a" "255 * x - y \<le> 255 * a"
      by (simp_all add: y_def)
    have qq: "(0::rat) \<le> of_int q" "(of_int q :: rat) \<le> 254" using q0 q254 by simp_all
    have y0: "0 < y" using y1 tlo abd ab qq by linarith
    have "y < 256" using y1 thi abd ab qq d1 by linarith
    then have "y < 2 powi 8" by simp
    from double_round_error [OF y0 this]
    have "\<bar>double_round y - y\<bar> \<le> b" by (simp add: b_def)
    then have v1: "double_round y - y \<le> b" "y - double_round y \<le> b"
      by (simp_all add: abs_le_iff)
    have "of_int q \<le> double_round y" "double_round y < of_int q + 1"
      using v1 y1 tlo thi abd by linarith+
    then have "\<lfloor>double_round y\<rfloor> = q" and "0 \<le> double_round y"
      using qq by (simp_all add: floor_unique)
    then show ?thesis by (simp add: goal y_def py_int_nonneg q_def)
  qed
qed

lemma double_round_exact:
  assumes "0 < x" "2 powi e \<le> x" "x < 2 powi (e + 1)" "x = of_int c * 2 powi (e - 52)"
  shows "double_round x = x"
proof -
  have "\<bar>x - of_int c * 2 powi (e - 52)\<bar> < 2 powi (e - 52) / 2"
    using assms(4) by simp
  from double_round_cert [OF assms(1-3) this] show ?thesis using assms(4) by simp
qed

lemma double_round_values:
  "double_round 50 = 50" "double_round 25 = 25" "double_round (25 / 2) = 25 / 2"
  "double_round 10 = 10"
proof -
  show "double_round 50 = 50"
    by (rule double_round_exact [where e = 5 and c = 7036874417766400]) simp_all
  show "double_round 25 = 25"
    by (rule double_round_exact [where e = 4 and c = 7036874417766400]) simp_all
  show "double_round (25 / 2) = 25 / 2"
    by (rule double_round_exact [where e = 3 and c = 7036874417766400]) simp_all
  show "double_round 10 = 10"
    by (rule double_round_exact [where e = 3 and c = 5629499534213120]) simp_all
qed

section \<open>Properties of the gradient mask\<close>

lemma mask_row_eq:
  "mask_row width height acc y = acc @ map (\<lambda>x. mask_value width height x y) [0..<width]"
proof -
  have "foldl (\<lambda>acc x. acc @ [f x]) acc xs = acc @ map f xs" for f :: "nat \<Rightarrow> int" and acc xs
    by (induction xs arbitrary: acc) simp_all
  then show ?thesis by (simp add: mask_row_def)
qed

lemma mask_data_eq:
  "mask_data width height =
     concat (map (\<lambda>y. map (\<lambda>x. mask_value width height x y) [0..<width]) [0..<height])"
proof -
  have "foldl (mask_row width height) acc ys =
          acc @ concat (map (\<lambda>y. map (\<lambda>x. mask_value width height x y) [0..<width]) ys)"
    for acc ys
    by (induction ys arbitrary: acc) (simp_all add: mask_row_eq)
  from this [of "[]"] show ?thesis by (simp add: mask_data_def)
qed

lemma concat_rows_nth:
  "\<forall>r \<in> set rows. length r = w \<Longrightarrow> y < length rows \<Longrightarrow> x < w \<Longrightarrow>
     concat rows ! (y * w + x) = rows ! y ! x"
proof (induction rows arbitrary: y)
  case Nil
  then show ?case by simp
next
  case (Cons r rows)
  show ?case
  proof (cases y)
    case 0
    with Cons.prems show ?thesis by (simp add: nth_append)
  next
    case (Suc y')
    have len: "length r = w" using Cons.prems(1) by simp
    have "concat (r # rows) ! (y * w + x) = concat rows ! (y' * w + x)"
      using Suc len by (simp add: nth_append)
    also have "\<dots> = rows ! y' ! x"
      using Cons.IH [of y'] Cons.prems Suc by simp
    finally show ?thesis using Suc by simp
  qed
qed

lemma length_concat_rows:
  "\<forall>r \<in> set rows. length r = w \<Longrightarrow> length (concat rows) = length rows * w"
  by (induction rows) simp_all

lemma length_mask_data: "length (mask_data width height) = width * height"
  by (simp add: mask_data_eq length_concat_rows [where w = width] mult.commute)

lemma mask_data_nth:
  assumes "x < width" "y < height"
  shows "mask_data width height ! (y * width + x) = mask_value width height x y"
  using assms by (simp add: mask_data_eq concat_rows_nth [where w = width])

lemma mask_value_floor:
  "mask_value width height x y = \<lfloor>255 * (of_nat (x + y) / of_nat (width + height) :: rat)\<rfloor>"
  by (simp add: mask_value_def blend_factor_def py_int_def)

lemma mask_value_div:
  "mask_value width height x y = (255 * int (x + y)) div int (width + height)"
proof -
  have "(255 * (of_nat (x + y) / of_nat (width + height)) :: rat)
          = of_int (255 * int (x + y)) / of_int (int (width + height))"
    by simp
  then show ?thesis
    unfolding mask_value_floor by (simp only: floor_divide_of_int_eq)
qed

lemma mask_value_nonneg: "0 \<le> mask_value width height x y"
  unfolding mask_value_div by (simp only: div_int_pos_iff) simp

lemma mask_value_less:
  assumes "x < width" "y < height"
  shows "mask_value width height x y < 255"
proof -
  define r :: rat where "r = of_nat (x + y) / of_nat (width + height)"
  have "r < 1"
    using assms by (simp add: r_def divide_less_eq_1)
  then have "255 * r < 255"
    by linarith
  then have "\<lfloor>255 * r\<rfloor> < 255"
    by (simp add: floor_less_iff)
  then show ?thesis
    by (simp only: mask_value_floor r_def)
qed


lemma im_data_gradient_mask:
  "im_data (gradient_mask width height) = map clip8 (mask_data width height)"
  by (simp add: gradient_mask_def putdata_def image_new_def length_mask_data)

lemma im_width_gradient_mask: "im_width (gradient_mask width height) = width"
  by (simp add: gradient_mask_def putdata_def image_new_def)

lemma im_height_gradient_mask: "im_height (gradient_mask width height) = height"
  by (simp add: gradient_mask_def putdata_def image_new_def)

lemma pixel_index_less:
  assumes "x < w" "y < h"
  shows "y * w + x < w * (h :: nat)"
proof -
  have "y * w + x < Suc y * w" using assms by simp
  also have "\<dots> \<le> h * w" using assms by (intro mult_le_mono1) simp
  finally show ?thesis by (simp add: mult.commute)
qed

lemma getpixel_gradient_mask:
  assumes "x < width" "y < height"
  shows "getpixel (gradient_mask width height) x y = clip8 (mask_value width height x y)"
  using assms pixel_index_less [OF assms]
  by (simp add: getpixel_def im_data_gradient_mask im_width_gradient_mask
      length_mask_data mask_data_nth)

lemma uint_clip8: "0 \<le> v \<Longrightarrow> v \<le> 255 \<Longrightarrow> uint (clip8 v) = v"
  by (simp add: clip8_def uint_word_of_int take_bit_int_eq_self)

lemma mask_value_double_exact:
  assumes "x < width" "y < height" "width + height \<le> 2 ^ 32"
  shows "mask_value_double width height x y = mask_value width height x y"
proof -
  have "x + y < width + height" using assms by simp
  from float_quotient_exact [OF this assms(3)] show ?thesis
    by (simp only: mask_value_double_def mask_value_div)
qed

text \<open>
  C1. For every \<open>width \<ge> 1\<close>, \<open>height \<ge> 1\<close> and every pixel \<open>(x, y)\<close> inside the image, the
  mask value the gradient generator produces for that pixel (the entry of \<open>mask_data\<close> at
  the pixel's row-major position, and the byte stored in the mask image) is the integer
  truncation of \<open>255 * ((x + y) / (width + height))\<close>. At \<open>(0, 0)\<close> it is 0; at the far corner
  \<open>(width - 1, height - 1)\<close> it is the truncation of the same formula, which is 254 and not 255
  for the 256 x 256 canvas (see the instance below). Evaluated in double precision, as
  Python does, the two lines of the loop body give the same integer whenever
  \<open>width + height \<le> 2 ^ 32\<close>.
\<close>

theorem gradient_mask_value:
  assumes "1 \<le> width" "1 \<le> height" "x < width" "y < height"
  shows "mask_data width height ! (y * width + x)
           = \<lfloor>255 * (of_nat (x + y) / of_nat (width + height) :: rat)\<rfloor>
       \<and> uint (getpixel (gradient_mask width height) x y)
           = \<lfloor>255 * (of_nat (x + y) / of_nat (width + height) :: rat)\<rfloor>
       \<and> getpixel (gradient_mask width height) 0 0 = 0
       \<and> uint (getpixel (gradient_mask width height) (width - 1) (height - 1))
           = \<lfloor>255 * (of_nat ((width - 1) + (height - 1)) / of_nat (width + height) :: rat)\<rfloor>
       \<and> (width + height \<le> 2 ^ 32 \<longrightarrow>
            mask_value_double width height x y
              = \<lfloor>255 * (of_nat (x + y) / of_nat (width + height) :: rat)\<rfloor>)"
proof -
  have stored: "uint (getpixel (gradient_mask width height) a b)
                  = \<lfloor>255 * (of_nat (a + b) / of_nat (width + height) :: rat)\<rfloor>"
    if "a < width" "b < height" for a b
  proof -
    have "mask_value width height a b \<le> 255"
      using mask_value_less [OF that] by simp
    then show ?thesis
      using that mask_value_nonneg [of width height a b]
      by (simp only: getpixel_gradient_mask uint_clip8 mask_value_floor)
  qed
  have origin: "getpixel (gradient_mask width height) 0 0 = 0"
  proof -
    have "0 < width" "0 < height" using assms by simp_all
    then have "uint (getpixel (gradient_mask width height) 0 0) = 0"
      by (simp add: stored)
    then show ?thesis by (simp add: word_uint_eq_iff)
  qed
  have corner: "width - 1 < width" "height - 1 < height" using assms by simp_all
  have double: "mask_value_double width height x y
                  = \<lfloor>255 * (of_nat (x + y) / of_nat (width + height) :: rat)\<rfloor>"
    if "width + height \<le> 2 ^ 32"
    using mask_value_double_exact [OF assms(3,4) that] by (simp only: mask_value_floor)
  have entry: "mask_data width height ! (y * width + x)
                 = \<lfloor>255 * (of_nat (x + y) / of_nat (width + height) :: rat)\<rfloor>"
    using assms mask_data_nth [of x width y height] by (simp only: mask_value_floor)
  show ?thesis
    using entry stored [OF assms(3,4)] stored [OF corner] origin double by blast
qed

theorem gradient_mask_value_witness:
  "(1::nat) \<le> 256 \<and> (255::nat) < 256
     \<and> mask_data 256 256 ! (255 * 256 + 255) = 254
     \<and> uint (getpixel (gradient_mask 256 256) 255 255) = 254
     \<and> getpixel (gradient_mask 256 256) 0 0 = 0
     \<and> mask_value_double 256 256 255 255 = 254"
proof -
  have "\<lfloor>255 * (of_nat (255 + 255) / of_nat (256 + 256) :: rat)\<rfloor> = 254"
    by code_simp
  then show ?thesis
    using gradient_mask_value [of 256 256 255 255] by simp
qed

lemma mask_value_mono:
  assumes "x + y \<le> x' + y'"
  shows "mask_value width height x y \<le> mask_value width height x' y'"
proof (cases "width + height = 0")
  case True
  then show ?thesis by (simp add: mask_value_div)
next
  case False
  have "255 * int (x + y) \<le> 255 * int (x' + y')" using assms by simp
  moreover have "0 < int (width + height)" using False by linarith
  ultimately show ?thesis
    unfolding mask_value_div by (rule zdiv_mono1)
qed

text \<open>
  C10. For every \<open>width \<ge> 1\<close>, \<open>height \<ge> 1\<close> and every pixel \<open>(x, y)\<close> inside the image,
  \<open>x + y \<le> width + height - 2\<close> and the mask value \<^verbatim>\<open>int(255 * p)\<close> is strictly below 255,
  as a Python integer and as the byte stored in the mask image: the end colour is nowhere
  pasted at full weight. No pixel has a larger mask value than the far corner
  \<open>(width - 1, height - 1)\<close>, and for the 256 x 256 canvas that maximum is 254. The value
  computed in double precision is below 255 as well whenever \<open>width + height \<le> 2 ^ 32\<close>.
\<close>

theorem gradient_mask_below_255:
  assumes "1 \<le> width" "1 \<le> height" "x < width" "y < height"
  shows "x + y \<le> width + height - 2
       \<and> mask_value width height x y < 255
       \<and> getpixel (gradient_mask width height) x y < 255
       \<and> mask_value width height x y \<le> mask_value width height (width - 1) (height - 1)
       \<and> mask_value 256 256 (256 - 1) (256 - 1) = 254
       \<and> (width + height \<le> 2 ^ 32 \<longrightarrow> mask_value_double width height x y < 255)"
proof -
  have lt: "mask_value width height x y < 255"
    using assms by (simp add: mask_value_less)
  have "uint (getpixel (gradient_mask width height) x y) = mask_value width height x y"
    using assms lt mask_value_nonneg [of width height x y]
    by (simp add: getpixel_gradient_mask uint_clip8)
  with lt have stored: "getpixel (gradient_mask width height) x y < 255"
    by (simp add: word_less_def)
  have "x + y \<le> (width - 1) + (height - 1)" using assms by simp
  then have le: "mask_value width height x y \<le> mask_value width height (width - 1) (height - 1)"
    by (rule mask_value_mono)
  have top: "mask_value 256 256 (256 - 1) (256 - 1) = 254"
    by (simp add: mask_value_div)
  have double: "mask_value_double width height x y < 255" if "width + height \<le> 2 ^ 32"
    using mask_value_double_exact [OF assms(3,4) that] lt by simp
  have "x + y \<le> width + height - 2" using assms by simp
  then show ?thesis using lt stored le top double by blast
qed

theorem gradient_mask_below_255_witness:
  "(1::nat) \<le> 256 \<and> (100::nat) < 256 \<and> (200::nat) < 256
     \<and> mask_value 256 256 100 200 < 255
     \<and> getpixel (gradient_mask 256 256) 100 200 < 255
     \<and> mask_value 256 256 100 200 \<le> 254
     \<and> mask_value_double 256 256 100 200 < 255"
  using gradient_mask_below_255 [of 256 256 100 200] by simp

section \<open>Compositing\<close>

lemma div255_scale: "n < 256 \<Longrightarrow> div255 (n * 255) = n"
  unfolding div255_def Let_def by linarith

lemma blend_zero: "blend 0 d s = d"
proof -
  have "unat d < 256" using unsigned_less [of d, where ?'a = nat] by simp
  then show ?thesis by (simp add: blend_def div255_scale)
qed

lemma blend_full: "blend 255 d s = s"
proof -
  have "unat s < 256" using unsigned_less [of s, where ?'a = nat] by simp
  then show ?thesis by (simp add: blend_def div255_scale)
qed

lemma blend_rgba_zero: "blend_rgba 0 d s = d"
  by (cases d; cases s) (simp add: blend_zero)

lemma blend_rgba_full: "blend_rgba 255 d s = s"
  by (cases d; cases s) (simp add: blend_full)

lemma well_formed_image_new: "well_formed (image_new w h c)"
  by (simp add: well_formed_def image_new_def)

lemma getpixel_image_new: "x < w \<Longrightarrow> y < h \<Longrightarrow> getpixel (image_new w h c) x y = c"
  using pixel_index_less [of x w y h] by (simp add: getpixel_def image_new_def)

lemma draw_size:
  "im_width (draw cov sh ink im) = im_width im"
  "im_height (draw cov sh ink im) = im_height im"
  "length (im_data (draw cov sh ink im)) = length (im_data im)"
  by (simp_all add: draw_def)

lemma well_formed_draw: "well_formed im \<Longrightarrow> well_formed (draw cov sh ink im)"
  by (simp add: well_formed_def draw_size)

lemma getpixel_draw:
  assumes "well_formed im" "x < im_width im" "y < im_height im"
  shows "getpixel (draw cov sh ink im) x y = (if cov sh x y then ink else getpixel im x y)"
proof -
  have "y * im_width im + x < length (im_data im)"
    using assms pixel_index_less [of x "im_width im" y "im_height im"]
    by (simp add: well_formed_def)
  then show ?thesis
    using assms(2) by (simp add: getpixel_def draw_def)
qed

lemma paste_ok:
  assumes "im_width msk = im_width src" "im_height msk = im_height src"
  shows "\<exists>r. paste dst src msk = Inr r \<and> im_width r = im_width dst \<and> im_height r = im_height dst
           \<and> length (im_data r) = length (im_data dst)"
  using assms by (simp add: paste_def)

lemma getpixel_paste:
  assumes "paste dst src msk = Inr r" "well_formed dst"
    and "x < im_width dst" "y < im_height dst"
    and "im_width src = im_width dst" "im_height src = im_height dst"
    and "im_width msk = im_width dst"
  shows "getpixel r x y = blend_rgba (getpixel msk x y) (getpixel dst x y) (getpixel src x y)"
proof -
  have idx: "y * im_width dst + x < length (im_data dst)"
    using assms pixel_index_less [of x "im_width dst" y "im_height dst"]
    by (simp add: well_formed_def)
  have r: "r = dst\<lparr>im_data :=
        map (\<lambda>i. let x = i mod im_width dst; y = i div im_width dst in
                  if x < im_width src \<and> y < im_height src
                  then blend_rgba (getpixel msk x y) (im_data dst ! i) (getpixel src x y)
                  else im_data dst ! i)
            [0..<length (im_data dst)]\<rparr>"
    using assms(1) by (simp add: paste_def split: if_splits)
  show ?thesis
    using idx assms(3-7) by (simp add: r getpixel_def Let_def)
qed


lemma paste_result:
  assumes "im_width msk = im_width src" "im_height msk = im_height src"
    and "im_width src = im_width dst" "im_height src = im_height dst" "well_formed dst"
  obtains r where "paste dst src msk = Inr r" "im_width r = im_width dst"
    "im_height r = im_height dst" "well_formed r"
    "\<And>x y. x < im_width dst \<Longrightarrow> y < im_height dst \<Longrightarrow>
       getpixel r x y = blend_rgba (getpixel msk x y) (getpixel dst x y) (getpixel src x y)"
proof -
  from paste_ok [OF assms(1,2), of dst] obtain r where
    r: "paste dst src msk = Inr r" "im_width r = im_width dst" "im_height r = im_height dst"
       "length (im_data r) = length (im_data dst)"
    by blast
  have "well_formed r" using r assms(5) by (simp add: well_formed_def)
  moreover have "getpixel r x y = blend_rgba (getpixel msk x y) (getpixel dst x y) (getpixel src x y)"
    if "x < im_width dst" "y < im_height dst" for x y
    using getpixel_paste [OF r(1) assms(5) that assms(3,4)] assms(1,3) by simp
  ultimately show ?thesis using r that by blast
qed

lemma gradient_mask_size:
  "im_width (gradient_mask w h) = w" "im_height (gradient_mask w h) = h"
  by (simp_all add: im_width_gradient_mask im_height_gradient_mask)

lemma image_new_size:
  "im_width (image_new w h c) = w" "im_height (image_new w h c) = h"
  by (simp_all add: image_new_def)

lemma create_gradient_result:
  obtains g where "create_gradient w h c1 c2 = Inr g" "im_width g = w" "im_height g = h"
    "well_formed g"
    "\<And>x y. x < w \<Longrightarrow> y < h \<Longrightarrow>
       getpixel g x y = blend_rgba (getpixel (gradient_mask w h) x y) (ink_RGBA c1) (ink_RGBA c2)"
proof -
  obtain g where g: "paste (image_new w h (ink_RGBA c1)) (image_new w h (ink_RGBA c2))
                       (gradient_mask w h) = Inr g"
      "im_width g = w" "im_height g = h" "well_formed g"
      "\<And>x y. x < w \<Longrightarrow> y < h \<Longrightarrow>
         getpixel g x y = blend_rgba (getpixel (gradient_mask w h) x y)
           (getpixel (image_new w h (ink_RGBA c1)) x y) (getpixel (image_new w h (ink_RGBA c2)) x y)"
    by (rule paste_result [of "gradient_mask w h" "image_new w h (ink_RGBA c2)"
          "image_new w h (ink_RGBA c1)"])
       (simp_all add: gradient_mask_size image_new_size well_formed_image_new)
  have "create_gradient w h c1 c2 = Inr g"
    using g(1) by (simp add: create_gradient_def Let_def)
  moreover have "getpixel g x y
      = blend_rgba (getpixel (gradient_mask w h) x y) (ink_RGBA c1) (ink_RGBA c2)"
    if "x < w" "y < h" for x y
    using g(5) [OF that] that by (simp add: getpixel_image_new)
  ultimately show ?thesis using g(2-4) that by blast
qed

lemma nat_size_px: "nat size_px = 256"
  by (simp add: size_px_def)

lemma drawn_mask:
  "im_width (draw cov sh a (image_new w h b)) = w"
  "im_height (draw cov sh a (image_new w h b)) = h"
  "well_formed (draw cov sh a (image_new w h b))"
  "x < w \<Longrightarrow> y < h \<Longrightarrow>
     getpixel (draw cov sh a (image_new w h b)) x y = (if cov sh x y then a else b)"
  by (simp_all add: draw_size image_new_size well_formed_draw well_formed_image_new
      getpixel_draw getpixel_image_new)

lemma mask_L_facts:
  "im_width (mask_L lib) = 256" "im_height (mask_L lib) = 256" "well_formed (mask_L lib)"
  "x < 256 \<Longrightarrow> y < 256 \<Longrightarrow>
     getpixel (mask_L lib) x y = (if covers lib outer_shape x y then 255 else 0)"
  by (simp_all add: mask_L_def nat_size_px drawn_mask clip8_def)

lemma inner_mask_facts:
  "im_width (inner_mask lib) = 256" "im_height (inner_mask lib) = 256"
  "well_formed (inner_mask lib)"
  "x < 256 \<Longrightarrow> y < 256 \<Longrightarrow>
     getpixel (inner_mask lib) x y = (if covers lib inner_shape x y then 255 else 0)"
  by (simp_all add: inner_mask_def nat_size_px drawn_mask clip8_def)

lemma gradient_result:
  obtains g where "gradient = Inr g" "im_width g = 256" "im_height g = 256" "well_formed g"
    "\<And>x y. x < 256 \<Longrightarrow> y < 256 \<Longrightarrow>
       getpixel g x y = blend_rgba (getpixel (gradient_mask 256 256) x y)
         (ink_RGBA color_cyan) (ink_RGBA color_purple)"
  using create_gradient_result [of 256 256 color_cyan color_purple]
  unfolding gradient_def nat_size_px by blast

lemma icon_shape_badge_result:
  obtains g b where "gradient = Inr g" "icon_shape_badge lib = Inr b"
    "im_width b = 256" "im_height b = 256" "well_formed b"
    "\<And>x y. x < 256 \<Longrightarrow> y < 256 \<Longrightarrow>
       getpixel b x y = blend_rgba (getpixel (mask_L lib) x y) (ink_RGBA (RGBA 0 0 0 0))
         (getpixel g x y)"
proof -
  obtain g where g: "gradient = Inr g" "im_width g = 256" "im_height g = 256"
    by (rule gradient_result)
  let ?blank = "image_new 256 256 (ink_RGBA (RGBA 0 0 0 0))"
  obtain b where b: "paste ?blank g (mask_L lib) = Inr b"
      "im_width b = im_width ?blank" "im_height b = im_height ?blank" "well_formed b"
      "\<And>x y. x < im_width ?blank \<Longrightarrow> y < im_height ?blank \<Longrightarrow>
         getpixel b x y = blend_rgba (getpixel (mask_L lib) x y) (getpixel ?blank x y)
           (getpixel g x y)"
    by (rule paste_result [of "mask_L lib" g ?blank])
       (simp_all add: g mask_L_facts image_new_size well_formed_image_new)
  have "icon_shape_badge lib = Inr b"
    using b(1) by (simp add: icon_shape_badge_def g(1) nat_size_px)
  moreover have "getpixel b x y
      = blend_rgba (getpixel (mask_L lib) x y) (ink_RGBA (RGBA 0 0 0 0)) (getpixel g x y)"
    if "x < 256" "y < 256" for x y
    using b(5) [of x y] that by (simp add: image_new_size getpixel_image_new)
  ultimately show ?thesis
    using g(1) b(2-4) that by (simp add: image_new_size)
qed

lemma icon_shape_panel_result:
  obtains b p where "icon_shape_badge lib = Inr b" "icon_shape_panel lib = Inr p"
    "im_width p = 256" "im_height p = 256" "well_formed p"
    "\<And>x y. x < 256 \<Longrightarrow> y < 256 \<Longrightarrow>
       getpixel p x y = blend_rgba (getpixel (inner_mask lib) x y) (getpixel b x y)
         (ink_RGBA color_bg)"
proof -
  obtain g b where b: "gradient = Inr g" "icon_shape_badge lib = Inr b"
      "im_width b = 256" "im_height b = 256" "well_formed b"
    by (rule icon_shape_badge_result [where lib = lib])
  obtain p where p: "paste b dark_layer (inner_mask lib) = Inr p"
      "im_width p = im_width b" "im_height p = im_height b" "well_formed p"
      "\<And>x y. x < im_width b \<Longrightarrow> y < im_height b \<Longrightarrow>
         getpixel p x y = blend_rgba (getpixel (inner_mask lib) x y) (getpixel b x y)
           (getpixel dark_layer x y)"
    by (rule paste_result [of "inner_mask lib" dark_layer b])
       (simp_all add: b inner_mask_facts dark_layer_def nat_size_px image_new_size)
  have "icon_shape_panel lib = Inr p"
    using p(1) by (simp add: icon_shape_panel_def b(2))
  moreover have "getpixel p x y
      = blend_rgba (getpixel (inner_mask lib) x y) (getpixel b x y) (ink_RGBA color_bg)"
    if "x < 256" "y < 256" for x y
    using p(5) [of x y] that b(3,4)
    by (simp add: dark_layer_def nat_size_px getpixel_image_new)
  ultimately show ?thesis
    using b(2,3,4) p(2-4) that by simp
qed

text \<open>
  C7. The two compositing steps do not raise. The second one, pasting the dark panel through
  the inner rounded mask onto the badge (the canvas after the gradient was pasted through the
  outer mask), changes only pixels where the inner mask is nonzero: every pixel of the
  canvas whose inner-mask value is 0 is the same before and after that paste. In particular
  a pixel of the border ring, inside the outer mask and outside the inner one, still shows
  the gradient's pixel.
\<close>

theorem panel_paste_frame:
  "\<exists>g before after. gradient = Inr g \<and> icon_shape_badge lib = Inr before
      \<and> icon_shape_panel lib = Inr after
      \<and> (x < 256 \<and> y < 256 \<and> getpixel (inner_mask lib) x y = 0
           \<longrightarrow> getpixel after x y = getpixel before x y)
      \<and> (x < 256 \<and> y < 256 \<and> getpixel after x y \<noteq> getpixel before x y
           \<longrightarrow> getpixel (inner_mask lib) x y \<noteq> 0)
      \<and> (x < 256 \<and> y < 256 \<and> getpixel (inner_mask lib) x y = 0
             \<and> getpixel (mask_L lib) x y \<noteq> 0
           \<longrightarrow> getpixel after x y = getpixel g x y)"
proof -
  obtain g b where b: "gradient = Inr g" "icon_shape_badge lib = Inr b"
    and "im_width b = 256" "im_height b = 256" "well_formed b"
    and bpix: "\<And>x y. x < 256 \<Longrightarrow> y < 256 \<Longrightarrow>
       getpixel b x y = blend_rgba (getpixel (mask_L lib) x y) (ink_RGBA (RGBA 0 0 0 0))
         (getpixel g x y)"
    using icon_shape_badge_result [where lib = lib] by blast
  obtain b' p where p: "icon_shape_badge lib = Inr b'" "icon_shape_panel lib = Inr p"
    and "im_width p = 256" "im_height p = 256" "well_formed p"
    and ppix: "\<And>x y. x < 256 \<Longrightarrow> y < 256 \<Longrightarrow>
       getpixel p x y = blend_rgba (getpixel (inner_mask lib) x y) (getpixel b' x y)
         (ink_RGBA color_bg)"
    using icon_shape_panel_result [where lib = lib] by blast
  have same: "b' = b" using b(2) p(1) by simp
  have keep: "getpixel p x y = getpixel b x y"
    if "x < 256" "y < 256" "getpixel (inner_mask lib) x y = 0"
    using ppix [OF that(1,2)] that(3) by (simp add: same blend_rgba_zero)
  have ring: "getpixel p x y = getpixel g x y"
    if "x < 256" "y < 256" "getpixel (inner_mask lib) x y = 0" "getpixel (mask_L lib) x y \<noteq> 0"
  proof -
    have "getpixel (mask_L lib) x y = 255"
      using that(4) mask_L_facts(4) [OF that(1,2), of lib] by (simp split: if_splits)
    then have "getpixel b x y = getpixel g x y"
      using bpix [OF that(1,2)] by (simp add: blend_rgba_full)
    then show ?thesis using keep [OF that(1-3)] by simp
  qed
  show ?thesis
    using b(1,2) p(2) keep ring by (intro exI [of _ g] exI [of _ b] exI [of _ p]) blast
qed

theorem panel_paste_frame_witness:
  "\<exists>g before after. gradient = Inr g \<and> icon_shape_badge sample_platform = Inr before
      \<and> icon_shape_panel sample_platform = Inr after
      \<and> (24::nat) < 256 \<and> (128::nat) < 256
      \<and> getpixel (inner_mask sample_platform) 24 128 = 0
      \<and> getpixel (mask_L sample_platform) 24 128 \<noteq> 0
      \<and> getpixel after 24 128 = getpixel before 24 128
      \<and> getpixel after 24 128 = getpixel g 24 128"
proof -
  have inner: "getpixel (inner_mask sample_platform) 24 128 = 0"
    by (simp add: inner_mask_facts sample_platform_def inner_shape_def inner_padding_def
        padding_def border_width_def size_px_def)
  have outer: "getpixel (mask_L sample_platform) 24 128 \<noteq> 0"
    by (simp add: mask_L_facts sample_platform_def outer_shape_def padding_def size_px_def)
  show ?thesis
    using panel_paste_frame [of sample_platform 24 128] inner outer by auto
qed

section \<open>The glow strokes and the rounded masks\<close>

lemma range_down_5: "range_down 5 = [5, 4, 3, 2, 1]"
  by (simp add: eval_nat_numeral)

lemma glow_alpha_div: "glow_alpha i = 50 div int i"
proof -
  have "(50 / of_nat i :: rat) = of_int 50 / of_int (int i)" by simp
  moreover have "(0::rat) \<le> 50 / of_nat i" by simp
  ultimately show ?thesis
    unfolding glow_alpha_def py_int_def by (simp only: floor_divide_of_int_eq if_True)
qed

lemma glow_alpha_values:
  "glow_alpha 5 = 10" "glow_alpha 4 = 12" "glow_alpha 3 = 16" "glow_alpha 2 = 25"
  "glow_alpha 1 = 50" "glow_alpha (Suc 0) = 50"
  by (simp_all add: glow_alpha_div)

lemma glyph_points: "p1 = (68, 68)" "p2 = (128, 128)" "p3 = (68, 188)"
  by (simp_all add: p1_def p2_def p3_def center_x_def center_y_def size_px_def
      arrow_offset_x_def arrow_size_def)

lemma cursor_rect_value: "cursor_rect = [158, 168, 208, 183]"
  by (simp add: cursor_rect_def cursor_x_def cursor_y_def cursor_w_def cursor_h_def
      center_x_def center_y_def size_px_def)

lemma arrow_glow_pass_value:
  "arrow_glow_pass =
     [(Line [p1, p2, p3] 40 ''curve'', RGBA 0 212 255 10),
      (Line [p1, p2, p3] 36 ''curve'', RGBA 0 212 255 12),
      (Line [p1, p2, p3] 32 ''curve'', RGBA 0 212 255 16),
      (Line [p1, p2, p3] 28 ''curve'', RGBA 0 212 255 25),
      (Line [p1, p2, p3] 24 ''curve'', RGBA 0 212 255 50)]"
  by (simp add: arrow_glow_pass_def range_down_5 arrow_glow_def glow_alpha_values
      arrow_width_def color_cyan_def)

lemma cursor_glow_pass_value:
  "cursor_glow_pass =
     [(Rectangle [143, 153, 223, 198], RGBA 189 0 255 10),
      (Rectangle [146, 156, 220, 195], RGBA 189 0 255 12),
      (Rectangle [149, 159, 217, 192], RGBA 189 0 255 16),
      (Rectangle [152, 162, 214, 189], RGBA 189 0 255 25),
      (Rectangle [155, 165, 211, 186], RGBA 189 0 255 50)]"
  by (simp add: cursor_glow_pass_def range_down_5 cursor_glow_def glow_alpha_values
      cursor_rect_value color_purple_def)

lemma uint_clip8_numeral [simp]:
  "uint (clip8 10) = 10" "uint (clip8 12) = 12" "uint (clip8 16) = 16" "uint (clip8 25) = 25"
  "uint (clip8 50) = 50" "uint (clip8 255) = 255"
  by (simp_all add: uint_clip8)

lemma glow_alpha_double_exact:
  assumes "1 \<le> i" "i \<le> 5"
  shows "glow_alpha_double i = glow_alpha i"
proof -
  have half: "\<lfloor>25 / 2 :: rat\<rfloor> = 12"
    by (rule floor_unique) simp_all
  consider "i = 1" | "i = 2" | "i = 3" | "i = 4" | "i = 5"
    using assms by linarith
  then show ?thesis
  proof cases
    case 3
    define v :: rat where "v = double_round (50 / 3)"
    have "\<bar>double_round (50 / 3) - 50 / 3\<bar> \<le> 2 powi (5 - 54)"
      by (rule double_round_error) simp_all
    moreover have "(2::rat) powi (5 - 54) \<le> 1 / 4" by simp
    ultimately have "\<bar>v - 50 / 3\<bar> \<le> 1 / 4" unfolding v_def by (rule order_trans)
    then have "16 \<le> v" "v < 17" by linarith+
    then have "\<lfloor>v\<rfloor> = 16" "0 \<le> v" by (simp_all add: floor_unique)
    then have "py_int v = 16" by (simp add: py_int_nonneg)
    then show ?thesis
      using 3 by (simp add: glow_alpha_double_def py_truediv_def v_def glow_alpha_values)
  qed (simp_all add: glow_alpha_double_def py_truediv_def double_round_values
        glow_alpha_values py_int_def half)
qed

text \<open>
  C2, as the program has it. In both glow passes the stroke of layer \<open>i\<close>, for \<open>i\<close> from 5 down
  to 1, has alpha \<^verbatim>\<open>int(50 / i)\<close>, the quotient truncated (\<open>50 div i\<close>), which is not always
  the nearest integer to \<open>50 / i\<close>; evaluated in double precision the line gives the same
  integer. The chevron stroke of layer \<open>i\<close> has width
  \<open>arrow_width + i * 4\<close>; the cursor-bar stroke of layer \<open>i\<close> is the base rectangle moved
  outwards by \<open>i * 3\<close> pixels on each of its four sides.
\<close>

theorem glow_layer:
  assumes "1 \<le> i" "i \<le> 5"
  shows "length arrow_glow_pass = 5 \<and> length cursor_glow_pass = 5
       \<and> arrow_glow_pass ! (5 - i)
           = (Line [p1, p2, p3] (arrow_width + int i * 4) ''curve'',
              RGBA 0 212 255 (50 div int i))
       \<and> stroke_alpha (arrow_glow_pass ! (5 - i)) = 50 div int i
       \<and> stroke_width (arrow_glow_pass ! (5 - i)) = arrow_width + int i * 4
       \<and> cursor_glow_pass ! (5 - i)
           = (Rectangle [cursor_rect ! 0 - int i * 3, cursor_rect ! 1 - int i * 3,
                         cursor_rect ! 2 + int i * 3, cursor_rect ! 3 + int i * 3],
              RGBA 189 0 255 (50 div int i))
       \<and> stroke_alpha (cursor_glow_pass ! (5 - i)) = 50 div int i
       \<and> glow_alpha_double i = 50 div int i"
proof -
  have double: "glow_alpha_double i = 50 div int i"
    using glow_alpha_double_exact [OF assms] by (simp only: glow_alpha_div)
  consider "i = 1" | "i = 2" | "i = 3" | "i = 4" | "i = 5"
    using assms by linarith
  then have "length arrow_glow_pass = 5 \<and> length cursor_glow_pass = 5
       \<and> arrow_glow_pass ! (5 - i)
           = (Line [p1, p2, p3] (arrow_width + int i * 4) ''curve'',
              RGBA 0 212 255 (50 div int i))
       \<and> stroke_alpha (arrow_glow_pass ! (5 - i)) = 50 div int i
       \<and> stroke_width (arrow_glow_pass ! (5 - i)) = arrow_width + int i * 4
       \<and> cursor_glow_pass ! (5 - i)
           = (Rectangle [cursor_rect ! 0 - int i * 3, cursor_rect ! 1 - int i * 3,
                         cursor_rect ! 2 + int i * 3, cursor_rect ! 3 + int i * 3],
              RGBA 189 0 255 (50 div int i))
       \<and> stroke_alpha (cursor_glow_pass ! (5 - i)) = 50 div int i"
    by cases
      (simp_all add: arrow_glow_pass_value cursor_glow_pass_value cursor_rect_value
        arrow_width_def)
  then show ?thesis using double by blast
qed

theorem glow_layer_witness:
  "(1::nat) \<le> 3 \<and> (3::nat) \<le> 5
     \<and> stroke_alpha (arrow_glow_pass ! (5 - 3)) = 16
     \<and> stroke_width (arrow_glow_pass ! (5 - 3)) = 32
     \<and> stroke_alpha (cursor_glow_pass ! (5 - 3)) = 16
     \<and> stroke_rect (cursor_glow_pass ! (5 - 3)) = [149, 159, 217, 192]
     \<and> glow_alpha_double 3 = 16"
  using glow_layer [of 3] by (simp add: arrow_width_def cursor_rect_value)

text \<open>
  C2 as the specification words it, with alpha \<open>round(50 / i)\<close>, fails at layer 3: the program
  draws alpha 16, the nearest integer to \<open>50 / 3\<close> is 17.
\<close>

theorem glow_alpha_not_rounded:
  "stroke_alpha (arrow_glow_pass ! (5 - 3)) = 16 \<and> spec_glow_alpha 3 = 17
     \<and> stroke_alpha (arrow_glow_pass ! (5 - 3)) \<noteq> spec_glow_alpha 3
     \<and> stroke_alpha (cursor_glow_pass ! (5 - 3)) \<noteq> spec_glow_alpha 3"
proof -
  have "spec_glow_alpha 3 = 17"
    unfolding spec_glow_alpha_def by code_simp
  then show ?thesis
    by (simp add: arrow_glow_pass_value cursor_glow_pass_value)
qed


text \<open>
  C5. The outer mask is the rounded rectangle with bounding box \<open>(20, 20)-(236, 236)\<close> and
  corner radius 60, the inner mask the one with bounding box \<open>(28, 28)-(228, 228)\<close> and corner
  radius 55: each of the four sides of the inner box lies exactly \<open>border_width = 8\<close> pixels
  inside the outer box, and the inner radius is the outer radius minus exactly 5.
\<close>

theorem rounded_masks_concentric:
  "mask_L lib = draw (covers lib) outer_shape 255 (image_new 256 256 0)
   \<and> inner_mask lib = draw (covers lib) inner_shape 255 (image_new 256 256 0)
   \<and> shape_box outer_shape = [20, 20, 236, 236]
   \<and> shape_box inner_shape = [28, 28, 228, 228]
   \<and> border_width = 8
   \<and> shape_box inner_shape ! 0 = shape_box outer_shape ! 0 + border_width
   \<and> shape_box inner_shape ! 1 = shape_box outer_shape ! 1 + border_width
   \<and> shape_box inner_shape ! 2 = shape_box outer_shape ! 2 - border_width
   \<and> shape_box inner_shape ! 3 = shape_box outer_shape ! 3 - border_width
   \<and> shape_radius outer_shape = 60
   \<and> shape_radius inner_shape = 55
   \<and> shape_radius inner_shape = shape_radius outer_shape - 5"
  by (simp add: mask_L_def inner_mask_def outer_shape_def inner_shape_def inner_padding_def
      padding_def border_width_def size_px_def corner_radius_def clip8_def)

text \<open>
  C8. For each glyph the glow strokes, in the order drawn (\<open>i\<close> from 5 down to 1), get
  strictly narrower (chevron widths 40, 36, 32, 28, 24; cursor-bar expansions 15, 12, 9, 6, 3
  on every side) and strictly more opaque (alphas 10, 12, 16, 25, 50). The stroke drawn
  after them is opaque (alpha 255) and has the base geometry: the chevron at width
  \<open>arrow_width = 20\<close>, narrower than every glow stroke, the cursor bar as the unexpanded
  rectangle.
\<close>

theorem glow_stack_order:
  "glyph_strokes = arrow_glow_pass @ [arrow_main] @ cursor_glow_pass @ [cursor_main]
   \<and> map stroke_width arrow_glow_pass = [40, 36, 32, 28, 24]
   \<and> sorted_wrt (>) (map stroke_width arrow_glow_pass)
   \<and> map stroke_alpha arrow_glow_pass = [10, 12, 16, 25, 50]
   \<and> sorted_wrt (<) (map stroke_alpha arrow_glow_pass)
   \<and> stroke_width arrow_main = arrow_width \<and> arrow_width = 20
   \<and> stroke_width arrow_main < last (map stroke_width arrow_glow_pass)
   \<and> stroke_alpha arrow_main = 255
   \<and> map (\<lambda>st. cursor_rect ! 0 - stroke_rect st ! 0) cursor_glow_pass = [15, 12, 9, 6, 3]
   \<and> map (\<lambda>st. cursor_rect ! 1 - stroke_rect st ! 1) cursor_glow_pass = [15, 12, 9, 6, 3]
   \<and> map (\<lambda>st. stroke_rect st ! 2 - cursor_rect ! 2) cursor_glow_pass = [15, 12, 9, 6, 3]
   \<and> map (\<lambda>st. stroke_rect st ! 3 - cursor_rect ! 3) cursor_glow_pass = [15, 12, 9, 6, 3]
   \<and> sorted_wrt (>) (map (\<lambda>st. cursor_rect ! 0 - stroke_rect st ! 0) cursor_glow_pass)
   \<and> map stroke_alpha cursor_glow_pass = [10, 12, 16, 25, 50]
   \<and> sorted_wrt (<) (map stroke_alpha cursor_glow_pass)
   \<and> stroke_rect cursor_main = cursor_rect
   \<and> stroke_alpha cursor_main = 255"
  by (simp add: glyph_strokes_def arrow_glow_pass_value cursor_glow_pass_value cursor_rect_value
      arrow_main_def cursor_main_def arrow_width_def color_white_def color_purple_def)

section \<open>Saving: directory, frames and files\<close>

lemma draw_stroke_size:
  "im_width (draw_stroke lib im st) = im_width im"
  "im_height (draw_stroke lib im st) = im_height im"
  by (simp_all add: draw_stroke_def draw_size)

lemma well_formed_draw_stroke:
  "well_formed im \<Longrightarrow> well_formed (draw_stroke lib im st)"
  unfolding draw_stroke_def by (rule well_formed_draw)

lemma foldl_draw_stroke_width:
  "im_width (foldl (draw_stroke lib) im sts) = im_width im"
  by (induction sts arbitrary: im) (simp_all add: draw_stroke_size)


lemma foldl_draw_stroke_height:
  "im_height (foldl (draw_stroke lib) im sts) = im_height im"
  by (induction sts arbitrary: im) (simp_all add: draw_stroke_size)

lemma foldl_draw_stroke_well_formed:
  "well_formed im \<Longrightarrow> well_formed (foldl (draw_stroke lib) im sts)"
proof (induction sts arbitrary: im)
  case Nil
  then show ?case by simp
next
  case (Cons st sts)
  have "well_formed (draw_stroke lib im st)"
    using Cons.prems by (rule well_formed_draw_stroke)
  then show ?case using Cons.IH by simp
qed

lemma icon_shape_final_result:
  obtains p c where "icon_shape_panel lib = Inr p"
    "icon_shape_final lib = Inr c" "c = foldl (draw_stroke lib) p glyph_strokes"
    "im_width c = 256" "im_height c = 256" "well_formed c"
proof -
  obtain b p where p: "icon_shape_badge lib = Inr b" "icon_shape_panel lib = Inr p"
    and sz: "im_width p = 256" "im_height p = 256" "well_formed p"
    by (rule icon_shape_panel_result)
  let ?c = "foldl (draw_stroke lib) p glyph_strokes"
  have fin: "icon_shape_final lib = Inr ?c"
    by (simp add: icon_shape_final_def p(2))
  have "im_width ?c = 256" "im_height ?c = 256" "well_formed ?c"
    using sz by (simp_all add: foldl_draw_stroke_width foldl_draw_stroke_height
        foldl_draw_stroke_well_formed)
  then show ?thesis
    by (rule that [OF p(2) fin refl])
qed

lemma resize_size:
  "im_width (resize lib im s) = fst s" "im_height (resize lib im s) = snd s"
  by (auto simp add: resize_def)

lemma resize_own_size: "resize lib im (im_width im, im_height im) = im"
  by (simp add: resize_def)

lemma sizes_value: "sizes = [(256, 256), (128, 128), (64, 64), (48, 48), (32, 32), (16, 16)]"
  by (simp add: sizes_def)

lemma sorted_sizes:
  "sort (remdups sizes) = [(16, 16), (32, 32), (48, 48), (64, 64), (128, 128), (256, 256)]"
  by (simp add: sizes_def)

lemma icon_images_eq: "icon_images lib c = map (resize lib c) sizes"
proof -
  have "foldl (\<lambda>acc s. acc @ [f s]) acc ss = acc @ map f ss"
    for f :: "nat \<times> nat \<Rightarrow> rgba image" and acc ss
    by (induction ss arbitrary: acc) simp_all
  then show ?thesis by (simp add: icon_images_def)
qed

lemma icon_images_value:
  "icon_images lib c =
     [resize lib c (256, 256), resize lib c (128, 128), resize lib c (64, 64),
      resize lib c (48, 48), resize lib c (32, 32), resize lib c (16, 16)]"
  by (simp add: icon_images_eq sizes_value)

lemma ico_frames_icon:
  "ico_frames lib (resize lib c (256, 256)) sizes
       [resize lib c (128, 128), resize lib c (64, 64), resize lib c (48, 48),
        resize lib c (32, 32), resize lib c (16, 16)] =
     [resize lib c (16, 16), resize lib c (32, 32), resize lib c (48, 48),
      resize lib c (64, 64), resize lib c (128, 128), resize lib c (256, 256)]"
  by (simp add: ico_frames_def sorted_sizes resize_size)

lemma ico_bytes_container:
  "ico_bytes lib c =
     ico_container lib
       [resize lib c (16, 16), resize lib c (32, 32), resize lib c (48, 48),
        resize lib c (64, 64), resize lib c (128, 128), resize lib c (256, 256)]"
  by (simp add: ico_bytes_def ico_save_def icon_images_value ico_frames_icon)

lemma ico_directory_container:
  assumes "map (\<lambda>f. (im_width f, im_height f)) [f1, f2, f3, f4, f5, f6] =
     [(16, 16), (32, 32), (48, 48), (64, 64), (128, 128), (256, 256)]"
  shows "ico_count (ico_container lib [f1, f2, f3, f4, f5, f6]) = 6"
    and "ico_directory (ico_container lib [f1, f2, f3, f4, f5, f6]) =
     [(16, 16), (32, 32), (48, 48), (64, 64), (128, 128), (256, 256)]"
proof -
  have six: "[0..<6] = [0, 1, 2, 3, 4, 5]"
    by (simp add: upt_rec)
  show c: "ico_count (ico_container lib [f1, f2, f3, f4, f5, f6]) = 6"
    by (simp add: ico_count_def ico_container_def o16_def)
  show "ico_directory (ico_container lib [f1, f2, f3, f4, f5, f6]) =
     [(16, 16), (32, 32), (48, 48), (64, 64), (128, 128), (256, 256)]"
    unfolding ico_directory_def c six
    using assms by (simp add: ico_container_def o8_def o16_def o32_def ico_dim_def)
qed

lemma ico_directory_icon:
  "ico_count (ico_bytes lib c) = 6"
  "ico_directory (ico_bytes lib c) =
     [(16, 16), (32, 32), (48, 48), (64, 64), (128, 128), (256, 256)]"
  unfolding ico_bytes_container
  by (rule ico_directory_container, simp add: resize_size)+

lemma paths_distinct:
  "output_path lib \<noteq> png_path lib" "png_path lib \<noteq> output_path lib"
  "output_path lib \<noteq> output_dir" "png_path lib \<noteq> output_dir"
  "output_dir \<noteq> output_path lib" "output_dir \<noteq> png_path lib"
  by (simp_all add: output_path_def png_path_def os_path_join_def)

lemma os_path_split_chars:
  "set (fst (os_path_split sep p)) \<subseteq> set p" "set (snd (os_path_split sep p)) \<subseteq> set p"
proof -
  have a: "set (dropWhile P (rev xs)) \<subseteq> set xs" for P and xs :: string
    using set_dropWhileD [of _ P "rev xs"] by auto
  have b: "set (takeWhile P (rev xs)) \<subseteq> set xs" for P and xs :: string
    using set_takeWhileD [of _ P "rev xs"] by auto
  have c: "set (dropWhile Q (rev (rev (dropWhile P (rev xs))))) \<subseteq> set xs"
    for P Q and xs :: string
    using set_dropWhileD [of _ Q "dropWhile P (rev xs)"] a [of P xs] by auto
  show "set (fst (os_path_split sep p)) \<subseteq> set p"
    using a [of "\<lambda>c. c \<noteq> sep" p] c [of "\<lambda>c. c = sep" "\<lambda>c. c \<noteq> sep" p]
    by (simp add: os_path_split_def Let_def)
  show "set (snd (os_path_split sep p)) \<subseteq> set p"
    using b [of "\<lambda>c. c \<noteq> sep" p] by (simp add: os_path_split_def Let_def)
qed

lemma makedirs_split_chars: "set (snd (makedirs_split sep p)) \<subseteq> set p"
proof -
  obtain h t where ht: "os_path_split sep p = (h, t)"
    by (cases "os_path_split sep p")
  have "set h \<subseteq> set p" "set t \<subseteq> set p"
    using os_path_split_chars [of sep p] by (simp_all add: ht)
  moreover have "set (snd (os_path_split sep h)) \<subseteq> set h"
    by (rule os_path_split_chars)
  ultimately show ?thesis
    by (auto simp add: makedirs_split_def ht)
qed

lemma output_dir_tail: "snd (makedirs_split sep output_dir) \<noteq> ''.''"
proof
  assume "snd (makedirs_split sep output_dir) = ''.''"
  then have "CHR ''.'' \<in> set output_dir"
    using makedirs_split_chars [of sep output_dir] by auto
  then show False
    by (simp add: output_dir_def)
qed

lemma os_mkdir_Inr_iff:
  "os_mkdir sep name w = Inr w' \<longleftrightarrow>
     (fst (makedirs_split sep name) = [] \<or> nodes w (fst (makedirs_split sep name)) = Some Dir)
     \<and> nodes w name = None \<and> w' = w\<lparr>nodes := (nodes w)(name \<mapsto> Dir)\<rparr>"
  by (auto simp add: os_mkdir_def Let_def split: option.splits node.splits)

lemma os_mkdir_taken:
  "nodes w name \<noteq> None \<Longrightarrow> \<exists>e. os_mkdir sep name w = Inl e"
  by (cases "os_mkdir sep name w") (auto simp add: os_mkdir_Inr_iff)

lemma os_makedirs_cases:
  assumes "os_makedirs sep name w = Inr w'" "snd (makedirs_split sep name) \<noteq> ''.''"
  shows "\<exists>v. os_mkdir sep name v = Inr w'
           \<and> (v = w \<or> os_makedirs sep (fst (makedirs_split sep name)) w = Inr v)"
  using assms
  by (subst (asm) os_makedirs.simps)
     (auto split: if_splits sum.splits)

lemma os_makedirs_Inr_dir:
  assumes "os_makedirs sep name w = Inr w'" "snd (makedirs_split sep name) \<noteq> ''.''"
  shows "nodes w' name = Some Dir"
  using os_makedirs_cases [OF assms] by (auto simp add: os_mkdir_Inr_iff)

lemma os_makedirs_keeps:
  "os_makedirs sep name w = Inr w' \<Longrightarrow>
     console w' = console w \<and> (\<forall>p. nodes w p \<noteq> None \<longrightarrow> nodes w' p = nodes w p)"
proof (induction sep name w arbitrary: w' rule: os_makedirs.induct)
  case (1 sep name w)
  have mk: "console v' = console v \<and> (\<forall>p. nodes v p \<noteq> None \<longrightarrow> nodes v' p = nodes v p)"
    if "os_mkdir sep name v = Inr v'" for v v'
    using that by (auto simp add: os_mkdir_Inr_iff)
  show ?case
  proof (cases "fst (makedirs_split sep name) \<noteq> [] \<and> snd (makedirs_split sep name) \<noteq> []
         \<and> \<not> os_path_exists w (fst (makedirs_split sep name))")
    case False
    then have "os_mkdir sep name w = Inr w'"
      using "1.prems" by (subst (asm) os_makedirs.simps) (simp split: if_splits)
    then show ?thesis by (rule mk)
  next
    case True
    show ?thesis
    proof (cases "os_makedirs sep (fst (makedirs_split sep name)) w")
      case (Inl e)
      then have "w' = w \<or> os_mkdir sep name w = Inr w'"
        using "1.prems" True
        by (subst (asm) os_makedirs.simps) (auto split: if_splits)
      then show ?thesis using mk by auto
    next
      case (Inr v)
      have keep: "console v = console w \<and> (\<forall>p. nodes w p \<noteq> None \<longrightarrow> nodes v p = nodes w p)"
        using "1.IH" [OF True Inr] .
      have "w' = v \<or> os_mkdir sep name v = Inr w'"
        using "1.prems" True Inr
        by (subst (asm) os_makedirs.simps) (auto split: if_splits)
      then show ?thesis
      proof
        assume "w' = v"
        then show ?thesis using keep by simp
      next
        assume "os_mkdir sep name v = Inr w'"
        from mk [OF this] keep show ?thesis by auto
      qed
    qed
  qed
qed


lemma os_makedirs_direct:
  assumes "nodes w name = None"
    and "fst (makedirs_split sep name) = [] \<or> nodes w (fst (makedirs_split sep name)) = Some Dir"
  shows "os_makedirs sep name w = Inr (w\<lparr>nodes := (nodes w)(name \<mapsto> Dir)\<rparr>)"
proof -
  have mk: "os_mkdir sep name w = Inr (w\<lparr>nodes := (nodes w)(name \<mapsto> Dir)\<rparr>)"
    using assms by (simp add: os_mkdir_Inr_iff)
  have neg: "\<not> (fst (makedirs_split sep name) \<noteq> [] \<and> snd (makedirs_split sep name) \<noteq> []
         \<and> \<not> os_path_exists w (fst (makedirs_split sep name)))"
    using assms(2) by (auto simp add: os_path_exists_def)
  have "os_makedirs sep name w = os_mkdir sep name w"
    by (subst os_makedirs.simps) (simp only: neg if_False)
  then show ?thesis
    using mk by simp
qed

lemma ensure_output_dir_skip:
  "os_path_exists w output_dir \<Longrightarrow> ensure_output_dir lib w = Inr w"
  by (simp add: ensure_output_dir_def)

lemma ensure_output_dir_creates:
  assumes "nodes w output_dir = None"
    and "output_parent lib = [] \<or> nodes w (output_parent lib) = Some Dir"
  shows "ensure_output_dir lib w = Inr (w\<lparr>nodes := (nodes w)(output_dir \<mapsto> Dir)\<rparr>)"
  using assms os_makedirs_direct [of w output_dir "path_sep lib"]
  by (simp add: ensure_output_dir_def os_path_exists_def output_parent_def)

lemma ensure_output_dir_Inr:
  assumes "ensure_output_dir lib w = Inr w1"
  shows "os_path_exists w1 output_dir" "ensure_output_dir lib w1 = Inr w1"
    "console w1 = console w" "\<not> os_path_exists w output_dir \<Longrightarrow> nodes w1 output_dir = Some Dir"
proof -
  show made: "nodes w1 output_dir = Some Dir" if "\<not> os_path_exists w output_dir"
    using assms that os_makedirs_Inr_dir [of "path_sep lib" output_dir w w1] output_dir_tail
    by (simp add: ensure_output_dir_def)
  show ex: "os_path_exists w1 output_dir"
  proof (cases "os_path_exists w output_dir")
    case True
    then show ?thesis using assms by (simp add: ensure_output_dir_def)
  next
    case False
    then show ?thesis using made by (simp add: os_path_exists_def)
  qed
  show "ensure_output_dir lib w1 = Inr w1"
    using ex by (rule ensure_output_dir_skip)
  show "console w1 = console w"
    using assms os_makedirs_keeps [of "path_sep lib" output_dir w w1]
    by (auto simp add: ensure_output_dir_def split: if_splits)
qed

lemma and_then_Inr_iff: "and_then m f = Inr r \<longleftrightarrow> (\<exists>v. m = Inr v \<and> f v = Inr r)"
  by (cases m) simp_all

lemma write_file_Inr_iff:
  "write_file d p c w = Inr w' \<longleftrightarrow>
     nodes w d = Some Dir \<and> writable w p \<and> w' = w\<lparr>nodes := (nodes w)(p \<mapsto> File c)\<rparr>"
  by (auto simp add: write_file_def writable_def split: option.splits node.splits)

lemma save_outputs_unfold:
  "save_outputs lib c w = Inr w' \<longleftrightarrow>
     (\<exists>w1 w2 w4. ensure_output_dir lib w = Inr w1
        \<and> write_file output_dir (output_path lib) (ico_bytes lib c) w1 = Inr w2
        \<and> write_file output_dir (png_path lib) (encode_png lib c)
              (print_line (''Icon generated successfully at: '' @ output_path lib) w2) = Inr w4
        \<and> w' = print_line (''PNG version saved at: '' @ png_path lib) w4)"
  unfolding save_outputs_def Let_def and_then_Inr_iff by auto

lemma nodes_print_line: "nodes (print_line s w) = nodes w"
  by (simp add: print_line_def)

lemma console_print_line: "console (print_line s w) = console w @ [s]"
  by (simp add: print_line_def)

lemma save_outputs_Inr:
  assumes "save_outputs lib c w = Inr w'"
  shows "nodes w' output_dir = Some Dir"
    and "nodes w' (output_path lib) = Some (File (ico_bytes lib c))"
    and "nodes w' (png_path lib) = Some (File (encode_png lib c))"
    and "console w' = console w @ [''Icon generated successfully at: '' @ output_path lib,
                                   ''PNG version saved at: '' @ png_path lib]"
proof -
  from assms obtain w1 w2 w4 where
    w1: "ensure_output_dir lib w = Inr w1"
    and w2: "write_file output_dir (output_path lib) (ico_bytes lib c) w1 = Inr w2"
    and w4: "write_file output_dir (png_path lib) (encode_png lib c)
              (print_line (''Icon generated successfully at: '' @ output_path lib) w2) = Inr w4"
    and w': "w' = print_line (''PNG version saved at: '' @ png_path lib) w4"
    unfolding save_outputs_unfold by blast
  have c1: "console w1 = console w"
    using w1 by (rule ensure_output_dir_Inr(3))
  have d1: "nodes w1 output_dir = Some Dir"
    and e2: "w2 = w1\<lparr>nodes := (nodes w1)(output_path lib \<mapsto> File (ico_bytes lib c))\<rparr>"
    using w2 by (simp_all add: write_file_Inr_iff)
  have e4: "w4 = (print_line (''Icon generated successfully at: '' @ output_path lib) w2)
              \<lparr>nodes := (nodes w2)(png_path lib \<mapsto> File (encode_png lib c))\<rparr>"
    using w4 by (simp add: write_file_Inr_iff nodes_print_line)
  show "nodes w' output_dir = Some Dir"
    by (simp add: w' e4 e2 d1 nodes_print_line paths_distinct)
  show "nodes w' (output_path lib) = Some (File (ico_bytes lib c))"
    by (simp add: w' e4 e2 nodes_print_line paths_distinct)
  show "nodes w' (png_path lib) = Some (File (encode_png lib c))"
    by (simp add: w' e4 e2 nodes_print_line paths_distinct)
  show "console w' = console w @ [''Icon generated successfully at: '' @ output_path lib,
                                   ''PNG version saved at: '' @ png_path lib]"
    by (simp add: w' e4 e2 c1 console_print_line)
qed

lemma save_outputs_from:
  assumes "ensure_output_dir lib w = Inr w1" "nodes w1 output_dir = Some Dir"
    and "writable w1 (output_path lib)" "writable w1 (png_path lib)"
  shows "\<exists>w'. save_outputs lib c w = Inr w'"
proof -
  define w2 where "w2 = w1\<lparr>nodes := (nodes w1)(output_path lib \<mapsto> File (ico_bytes lib c))\<rparr>"
  have s2: "write_file output_dir (output_path lib) (ico_bytes lib c) w1 = Inr w2"
    using assms(2,3) by (simp add: write_file_Inr_iff w2_def)
  define w3 where "w3 = print_line (''Icon generated successfully at: '' @ output_path lib) w2"
  have d3: "nodes w3 output_dir = Some Dir" "writable w3 (png_path lib)"
    using assms(2,4)
    by (simp_all add: w3_def w2_def nodes_print_line paths_distinct writable_def)
  then have "\<exists>w4. write_file output_dir (png_path lib) (encode_png lib c) w3 = Inr w4"
    by (simp add: write_file_Inr_iff)
  then show ?thesis
    using assms(1) s2 unfolding save_outputs_unfold w3_def by blast
qed

lemma save_outputs_ok:
  assumes "nodes w output_dir = Some Dir
      \<or> nodes w output_dir = None
        \<and> (output_parent lib = [] \<or> nodes w (output_parent lib) = Some Dir)"
    and "writable w (output_path lib)" "writable w (png_path lib)"
  shows "\<exists>w'. save_outputs lib c w = Inr w'"
  using assms(1)
proof
  assume d: "nodes w output_dir = Some Dir"
  then have "ensure_output_dir lib w = Inr w"
    by (simp add: ensure_output_dir_skip os_path_exists_def)
  then show ?thesis
    using d assms(2,3) by (rule save_outputs_from)
next
  assume a: "nodes w output_dir = None
        \<and> (output_parent lib = [] \<or> nodes w (output_parent lib) = Some Dir)"
  let ?w1 = "w\<lparr>nodes := (nodes w)(output_dir \<mapsto> Dir)\<rparr>"
  have "ensure_output_dir lib w = Inr ?w1"
    using a by (simp add: ensure_output_dir_creates)
  moreover have "nodes ?w1 output_dir = Some Dir"
    by simp
  moreover have "writable ?w1 (output_path lib)" "writable ?w1 (png_path lib)"
    using assms(2,3) by (simp_all add: writable_def paths_distinct)
  ultimately show ?thesis
    by (rule save_outputs_from)
qed

lemma generate_app_icon_Inr_iff:
  "generate_app_icon lib w = Inr w' \<longleftrightarrow>
     (\<exists>c. icon_shape_final lib = Inr c \<and> save_outputs lib c w = Inr w')"
  by (simp add: generate_app_icon_def and_then_Inr_iff)

lemma generate_app_icon_ok:
  assumes "nodes w output_dir = Some Dir
      \<or> nodes w output_dir = None
        \<and> (output_parent lib = [] \<or> nodes w (output_parent lib) = Some Dir)"
    and "writable w (output_path lib)" "writable w (png_path lib)"
  shows "\<exists>w'. generate_app_icon lib w = Inr w'"
proof -
  obtain p c where "icon_shape_panel lib = Inr p" "icon_shape_final lib = Inr c"
    by (rule icon_shape_final_result)
  then show ?thesis
    using save_outputs_ok [OF assms, of c] by (simp add: generate_app_icon_Inr_iff)
qed

lemma generate_app_icon_files:
  assumes "generate_app_icon lib w = Inr w'"
  shows "\<exists>c. icon_shape_final lib = Inr c
          \<and> nodes w' output_dir = Some Dir
          \<and> nodes w' (output_path lib) = Some (File (ico_bytes lib c))
          \<and> nodes w' (png_path lib) = Some (File (encode_png lib c))"
proof -
  from assms obtain c where c: "icon_shape_final lib = Inr c" "save_outputs lib c w = Inr w'"
    unfolding generate_app_icon_Inr_iff by blast
  show ?thesis
    using c(1) save_outputs_Inr(1-3) [OF c(2)] by simp
qed


lemma output_parent_sample: "output_parent sample_platform = []"
  by (simp add: output_parent_def sample_platform_def makedirs_split_def os_path_split_def
      output_dir_def)

lemma empty_world_run:
  "\<exists>w'. generate_app_icon sample_platform empty_world = Inr w'"
  by (rule generate_app_icon_ok)
     (simp_all add: empty_world_def output_parent_sample writable_def)

lemma stale_world_run:
  "\<exists>w'. generate_app_icon sample_platform stale_world = Inr w'"
  by (rule generate_app_icon_ok)
     (simp_all add: stale_world_def writable_def paths_distinct)







text \<open>
  C6, as the program and its icon writer have it. The list of output sizes has exactly 6
  entries, every entry is square, the sizes are 256, 128, 64, 48, 32, 16, strictly
  descending, and the first entry is the native canvas size 256 x 256. The program makes one
  resized frame per entry, each of the size of its entry, in that order, and hands them to
  the icon writer in that order (the first as the base image, the other five as
  \<^verbatim>\<open>append_images\<close>, with the size list). The writer stores these six frames, one per size,
  in ascending order of size: the header of \<^verbatim>\<open>app.ico\<close> counts 6 frames and its directory
  lists 16, 32, 48, 64, 128, 256.
\<close>

theorem icon_frames_in_order:
  "length sizes = 6
   \<and> map fst sizes = [256, 128, 64, 48, 32, 16]
   \<and> map snd sizes = map fst sizes
   \<and> sorted_wrt (>) (map fst sizes)
   \<and> sizes ! 0 = (nat size_px, nat size_px)
   \<and> icon_images lib c =
        [resize lib c (256, 256), resize lib c (128, 128), resize lib c (64, 64),
         resize lib c (48, 48), resize lib c (32, 32), resize lib c (16, 16)]
   \<and> map (\<lambda>f. (im_width f, im_height f)) (icon_images lib c) = sizes
   \<and> ico_bytes lib c =
        ico_save lib (resize lib c (256, 256)) sizes
          [resize lib c (128, 128), resize lib c (64, 64), resize lib c (48, 48),
           resize lib c (32, 32), resize lib c (16, 16)]
   \<and> ico_frames lib (resize lib c (256, 256)) sizes
          [resize lib c (128, 128), resize lib c (64, 64), resize lib c (48, 48),
           resize lib c (32, 32), resize lib c (16, 16)] =
        [resize lib c (16, 16), resize lib c (32, 32), resize lib c (48, 48),
         resize lib c (64, 64), resize lib c (128, 128), resize lib c (256, 256)]
   \<and> ico_bytes lib c =
        ico_container lib
          [resize lib c (16, 16), resize lib c (32, 32), resize lib c (48, 48),
           resize lib c (64, 64), resize lib c (128, 128), resize lib c (256, 256)]
   \<and> ico_count (ico_bytes lib c) = 6
   \<and> ico_directory (ico_bytes lib c) =
        [(16, 16), (32, 32), (48, 48), (64, 64), (128, 128), (256, 256)]
   \<and> (generate_app_icon lib w = Inr w' \<longrightarrow>
        (\<exists>canvas. icon_shape_final lib = Inr canvas
           \<and> nodes w' (output_path lib) = Some (File (ico_bytes lib canvas))))"
proof -
  have dims: "map (\<lambda>f. (im_width f, im_height f)) (icon_images lib c) = sizes"
    by (simp add: icon_images_value sizes_value resize_size)
  have bytes: "ico_bytes lib c =
        ico_save lib (resize lib c (256, 256)) sizes
          [resize lib c (128, 128), resize lib c (64, 64), resize lib c (48, 48),
           resize lib c (32, 32), resize lib c (16, 16)]"
    by (simp add: ico_bytes_def icon_images_value)
  have written: "generate_app_icon lib w = Inr w' \<longrightarrow>
        (\<exists>canvas. icon_shape_final lib = Inr canvas
           \<and> nodes w' (output_path lib) = Some (File (ico_bytes lib canvas)))"
    using generate_app_icon_files [of lib w w'] by blast
  have "length sizes = 6" "map fst sizes = [256, 128, 64, 48, 32, 16]"
    "map snd sizes = map fst sizes" "sorted_wrt (>) (map fst sizes)"
    "sizes ! 0 = (nat size_px, nat size_px)"
    by (simp_all add: sizes_value size_px_def)
  then show ?thesis
    using icon_images_value [of lib c] dims bytes ico_frames_icon [of lib c]
      ico_bytes_container [of lib c] ico_directory_icon [of lib c] written
    by blast
qed

theorem icon_frames_in_order_witness:
  "\<exists>w' canvas. generate_app_icon sample_platform empty_world = Inr w'
      \<and> icon_shape_final sample_platform = Inr canvas
      \<and> nodes w' (output_path sample_platform) = Some (File (ico_bytes sample_platform canvas))
      \<and> length (icon_images sample_platform canvas) = 6
      \<and> ico_count (ico_bytes sample_platform canvas) = 6"
proof -
  obtain w' where w': "generate_app_icon sample_platform empty_world = Inr w'"
    using empty_world_run by blast
  from icon_frames_in_order [of sample_platform _ empty_world w'] w'
  obtain canvas where "icon_shape_final sample_platform = Inr canvas"
      "nodes w' (output_path sample_platform) = Some (File (ico_bytes sample_platform canvas))"
    by blast
  moreover have "length (icon_images sample_platform canvas) = 6"
    using icon_frames_in_order [of sample_platform canvas empty_world w'] by simp
  moreover have "ico_count (ico_bytes sample_platform canvas) = 6"
    using icon_frames_in_order [of sample_platform canvas empty_world w'] by blast
  ultimately show ?thesis using w' by blast
qed

text \<open>
  C6 as the specification words it, with the frames placed into the container in the order
  of the size list, fails: after a run the directory of \<^verbatim>\<open>app.ico\<close> lists the sizes from 16
  up to 256, the reverse of the list.
\<close>

theorem icon_container_ascending:
  "\<exists>w' bs. generate_app_icon sample_platform empty_world = Inr w'
      \<and> nodes w' (output_path sample_platform) = Some (File bs)
      \<and> ico_directory bs = [(16, 16), (32, 32), (48, 48), (64, 64), (128, 128), (256, 256)]
      \<and> ico_directory bs = rev sizes
      \<and> ico_directory bs \<noteq> sizes"
proof -
  obtain w' where w': "generate_app_icon sample_platform empty_world = Inr w'"
    using empty_world_run by blast
  from generate_app_icon_files [OF w'] obtain c where
    c: "nodes w' (output_path sample_platform) = Some (File (ico_bytes sample_platform c))"
    by blast
  have "ico_directory (ico_bytes sample_platform c) =
      [(16, 16), (32, 32), (48, 48), (64, 64), (128, 128), (256, 256)]"
    by (rule ico_directory_icon)
  then show ?thesis
    using w' c by (auto simp add: sizes_value)
qed

text \<open>
  C3. In a run that completes, \<^verbatim>\<open>app.png\<close> holds the PNG encoding of the composited canvas
  itself, which is 256 x 256: nothing is resized on that path. The frame the program makes
  for the entry 256 x 256 is what \<^verbatim>\<open>Image.resize\<close> returns for the canvas at the canvas's
  own size, and that is the canvas again, pixel for pixel. It is the image the icon writer
  stores for the size 256 x 256, as the last of the six frames of \<^verbatim>\<open>app.ico\<close>.
\<close>

theorem png_is_native_canvas:
  assumes "generate_app_icon lib w = Inr w'"
  shows "\<exists>canvas. icon_shape_final lib = Inr canvas
           \<and> im_width canvas = 256 \<and> im_height canvas = 256
           \<and> nodes w' (png_path lib) = Some (File (encode_png lib canvas))
           \<and> icon_images lib canvas ! 0 = canvas
           \<and> ico_frames lib (icon_images lib canvas ! 0) sizes (drop 1 (icon_images lib canvas)) =
                [resize lib canvas (16, 16), resize lib canvas (32, 32),
                 resize lib canvas (48, 48), resize lib canvas (64, 64),
                 resize lib canvas (128, 128), canvas]
           \<and> im_data (ico_frames lib (icon_images lib canvas ! 0) sizes
                         (drop 1 (icon_images lib canvas)) ! 5) = im_data canvas
           \<and> nodes w' (output_path lib) =
                Some (File (ico_container lib
                  [resize lib canvas (16, 16), resize lib canvas (32, 32),
                   resize lib canvas (48, 48), resize lib canvas (64, 64),
                   resize lib canvas (128, 128), canvas]))"
proof -
  from generate_app_icon_files [OF assms] obtain c where
    c: "icon_shape_final lib = Inr c"
      "nodes w' (output_path lib) = Some (File (ico_bytes lib c))"
      "nodes w' (png_path lib) = Some (File (encode_png lib c))"
    by blast
  obtain p c' where "icon_shape_final lib = Inr c'" "im_width c' = 256" "im_height c' = 256"
    by (rule icon_shape_final_result)
  then have sz: "im_width c = 256" "im_height c = 256"
    using c(1) by simp_all
  have own: "resize lib c (256, 256) = c"
    using resize_own_size [of lib c] sz by simp
  have first: "icon_images lib c ! 0 = c"
    by (simp add: icon_images_value own)
  have frames: "ico_frames lib (icon_images lib c ! 0) sizes (drop 1 (icon_images lib c)) =
      [resize lib c (16, 16), resize lib c (32, 32), resize lib c (48, 48),
       resize lib c (64, 64), resize lib c (128, 128), c]"
    using ico_frames_icon [of lib c] by (simp add: icon_images_value own)
  have bytes: "ico_bytes lib c =
      ico_container lib
        [resize lib c (16, 16), resize lib c (32, 32), resize lib c (48, 48),
         resize lib c (64, 64), resize lib c (128, 128), c]"
    using ico_bytes_container [of lib c] by (simp add: own)
  have last: "im_data (ico_frames lib (icon_images lib c ! 0) sizes
                         (drop 1 (icon_images lib c)) ! 5) = im_data c"
    unfolding frames by simp
  show ?thesis
    using c(1,3) sz first frames last c(2) [unfolded bytes] by blast
qed

theorem png_is_native_canvas_witness:
  "\<exists>w' canvas. generate_app_icon sample_platform empty_world = Inr w'
      \<and> icon_shape_final sample_platform = Inr canvas
      \<and> im_width canvas = 256 \<and> im_height canvas = 256
      \<and> nodes w' (png_path sample_platform) = Some (File (encode_png sample_platform canvas))
      \<and> icon_images sample_platform canvas ! 0 = canvas"
proof -
  obtain w' where w': "generate_app_icon sample_platform empty_world = Inr w'"
    using empty_world_run by blast
  show ?thesis
    using png_is_native_canvas [OF w'] w' by blast
qed

text \<open>
  C4. The program takes no input; what can differ between two runs is the world they start
  from (whether the output directory is there, what files it holds, what is on the console).
  Any two runs that complete, from whatever worlds, build the same canvas and leave the same
  bytes in \<^verbatim>\<open>app.ico\<close> and the same bytes in \<^verbatim>\<open>app.png\<close>. The operations of the platform
  (rasteriser, resampler, encoder) are functions of their arguments.
\<close>

theorem generate_app_icon_deterministic:
  assumes "generate_app_icon lib w1 = Inr r1" "generate_app_icon lib w2 = Inr r2"
  shows "\<exists>canvas. icon_shape_final lib = Inr canvas
           \<and> nodes r1 (output_path lib) = Some (File (ico_bytes lib canvas))
           \<and> nodes r2 (output_path lib) = Some (File (ico_bytes lib canvas))
           \<and> nodes r1 (png_path lib) = Some (File (encode_png lib canvas))
           \<and> nodes r2 (png_path lib) = Some (File (encode_png lib canvas))"
proof -
  from generate_app_icon_files [OF assms(1)] obtain c1 where
    c1: "icon_shape_final lib = Inr c1"
      "nodes r1 (output_path lib) = Some (File (ico_bytes lib c1))"
      "nodes r1 (png_path lib) = Some (File (encode_png lib c1))"
    by blast
  from generate_app_icon_files [OF assms(2)] obtain c2 where
    c2: "icon_shape_final lib = Inr c2"
      "nodes r2 (output_path lib) = Some (File (ico_bytes lib c2))"
      "nodes r2 (png_path lib) = Some (File (encode_png lib c2))"
    by blast
  have "c2 = c1" using c1(1) c2(1) by simp
  then show ?thesis using c1 c2 by simp
qed

theorem generate_app_icon_deterministic_witness:
  "\<exists>r1 r2 canvas. empty_world \<noteq> stale_world
      \<and> generate_app_icon sample_platform empty_world = Inr r1
      \<and> generate_app_icon sample_platform stale_world = Inr r2
      \<and> icon_shape_final sample_platform = Inr canvas
      \<and> nodes r1 (output_path sample_platform) = Some (File (ico_bytes sample_platform canvas))
      \<and> nodes r2 (output_path sample_platform) = Some (File (ico_bytes sample_platform canvas))
      \<and> nodes r1 (png_path sample_platform) = Some (File (encode_png sample_platform canvas))
      \<and> nodes r2 (png_path sample_platform) = Some (File (encode_png sample_platform canvas))"
proof -
  have differ: "empty_world \<noteq> stale_world"
    by (simp add: empty_world_def stale_world_def)
  obtain r1 where r1: "generate_app_icon sample_platform empty_world = Inr r1"
    using empty_world_run by blast
  obtain r2 where r2: "generate_app_icon sample_platform stale_world = Inr r2"
    using stale_world_run by blast
  show ?thesis
    using generate_app_icon_deterministic [OF r1 r2] differ r1 r2 by blast
qed

end
